theory Spec2Isabelle
  imports Main
begin

section \<open>Values, errors and results\<close>

text \<open>
  JavaScript values that travel through the orchestration core: verb arguments, event
  payloads and results. \<open>Obj n\<close> is a reference to the object with identity \<open>n\<close>.
\<close>

datatype val = Undefined | Str string | Num int | Obj nat | Arr "val list"

datatype err = Error string

text \<open>How a call of a hook or of an event handler ends: it returns, or it throws
  (for an asynchronous one: its deferred result rejects).\<close>

datatype hook_result = Returns | Throws err

text \<open>A settled deferred result (a Promise that resolved or rejected).\<close>

datatype settled = Resolved val | Rejected err

section \<open>Components\<close>

text \<open>
  A component is a capability set: any subset of the hooks below may be present. The
  component implementations are outside the core, so a hook is a black box: the model
  keeps whether it is present and whether a call of it with given arguments returns or
  throws, and records every call in the context's trace.
\<close>

datatype hook =
  Register | Dependencies | Boot | BabelConfig
  | WebpackEntry | WebpackRules | WebpackPlugins | WebpackConfig

record component_class =
  constructor_name :: string
  name_fn :: "string list option"
  is_passive :: bool
  requiresReload :: bool
  hooks :: "hook \<Rightarrow> (val list \<Rightarrow> hook_result) option"
  mix_keys :: "string list option"

text \<open>
  \<open>name_fn\<close> is \<open>[].concat(component.name())\<close> when the component has a \<open>name\<close> method;
  \<open>mix_keys\<close> is \<open>Object.keys(component.mix())\<close> when it has a \<open>mix\<close> method.
  An instance adds the two fields that only the registrar writes; on a fresh instance
  neither is set.
\<close>

record component =
  cls :: component_class
  activated :: bool
  caller :: "string option"

definition new_component :: "component_class \<Rightarrow> component" where
  "new_component k = \<lparr>cls = k, activated = False, caller = None\<rparr>"

section \<open>The state of one context\<close>

text \<open>Event handlers are closures over a component instance; they are named by the
  place that creates them and the identity of the instance they close over.\<close>

datatype handler =
  GatherDependencies nat
  | Init nat
  | LoadingEntry nat
  | LoadingRules nat
  | LoadingPlugins nat
  | ConfigReady nat
  | HotRecord

text \<open>An entry of \<open>registrar.components\<close>: the verb callable made by \<open>register\<close> for an
  instance and a name, a function taken from the instance's \<open>mix()\<close> map, or the
  \<open>inProduction\<close> function that the \<open>api\<close> getter adds.\<close>

datatype callable = Verb nat string | Api nat string | InProduction

text \<open>What a context did to its collaborators, in order.\<close>

datatype effect =
  HookCall nat hook "val list"
  | Queued nat bool
  | BabelMerged nat
  | HotRecorded
  | Fired string val
  | ApiCall nat string "val list"

record mix_state =
  ident :: nat
  ctx_name :: string
  booted :: bool
  initialized :: bool
  publicPath :: "string option"
  listeners :: "(string \<times> handler) list"
  store :: "nat \<rightharpoonup> component"
  next_component :: nat
  components :: "string \<rightharpoonup> callable"
  ledger :: "(string \<times> nat) list"
  trace :: "effect list"
  api_installed :: bool

subsection \<open>Dispatcher and build-record ledger\<close>

text \<open>
  Modelled from the spec: the Dispatcher (\<open>src/Dispatcher.js\<close> is not among the sources).
  \<open>listen\<close> registers a handler for a named event, order-preserving, several handlers
  per name permitted.
\<close>

definition listen :: "string \<Rightarrow> handler \<Rightarrow> mix_state \<Rightarrow> mix_state" where
  "listen event h s = s\<lparr>listeners := listeners s @ [(event, h)]\<rparr>"

text \<open>
  Modelled from the spec: \<open>Components.record\<close> (\<open>src/components/Components.js\<close> is not
  among the sources) records the component against its verb name in a ledger.
\<close>

definition record_component :: "string \<Rightarrow> nat \<Rightarrow> mix_state \<Rightarrow> mix_state" where
  "record_component name cid s = s\<lparr>ledger := ledger s @ [(name, cid)]\<rparr>"

definition emit :: "effect \<Rightarrow> mix_state \<Rightarrow> mix_state" where
  "emit e s = s\<lparr>trace := trace s @ [e]\<rparr>"

definition update_component :: "nat \<Rightarrow> (component \<Rightarrow> component) \<Rightarrow> mix_state \<Rightarrow> mix_state" where
  "update_component cid f s =
     (case store s cid of None \<Rightarrow> s | Some c \<Rightarrow> s\<lparr>store := (store s)(cid \<mapsto> f c)\<rparr>)"

text \<open>\<open>component.h && component.h(...args)\<close>: nothing happens when the hook is absent;
  otherwise the call is recorded and ends the way the hook says.\<close>

definition call_hook :: "nat \<Rightarrow> hook \<Rightarrow> val list \<Rightarrow> mix_state \<Rightarrow> hook_result \<times> mix_state" where
  "call_hook cid h args s =
     (case store s cid of
        None \<Rightarrow> (Returns, s)
      | Some c \<Rightarrow>
          (case hooks (cls c) h of
             None \<Rightarrow> (Returns, s)
           | Some f \<Rightarrow> (f args, emit (HookCall cid h args) s)))"

section \<open>ComponentRegistrar\<close>

text \<open>The callable that \<open>register\<close> stores under a verb name (\<open>(...args) => { ... }\<close>).\<close>

definition verb_callable :: "nat \<Rightarrow> string \<Rightarrow> val list \<Rightarrow> mix_state \<Rightarrow> hook_result \<times> mix_state" where
  "verb_callable cid name args s =
     (let s1 = record_component name cid s;
          s2 = update_component cid (\<lambda>c. c\<lparr>caller := Some name\<rparr>) s1
      in case call_hook cid Register args s2 of
           (Throws e, s3) \<Rightarrow> (Throws e, s3)
         | (Returns, s3) \<Rightarrow> (Returns, update_component cid (\<lambda>c. c\<lparr>activated := True\<rparr>) s3))"

text \<open>\<open>replace(/^([A-Z])/, letter => letter.toLowerCase())\<close>.\<close>

definition lower_first :: "string \<Rightarrow> string" where
  "lower_first s =
     (case s of
        [] \<Rightarrow> []
      | c # cs \<Rightarrow>
          (if 65 \<le> (of_char c :: nat) \<and> (of_char c :: nat) \<le> 90
           then char_of (of_char c + (32 :: nat)) # cs
           else c # cs))"

definition names_of :: "component_class \<Rightarrow> string list" where
  "names_of k = (case name_fn k of Some ns \<Rightarrow> ns | None \<Rightarrow> [lower_first (constructor_name k)])"

text \<open>\<open>Object.keys(component.mix()).forEach(name => this.components[name] = component.mix()[name])\<close>,
  skipped when the component has no \<open>mix\<close> method.\<close>

definition write_api :: "nat \<Rightarrow> mix_state \<Rightarrow> mix_state" where
  "write_api cid s =
     (case store s cid of
        None \<Rightarrow> s
      | Some c \<Rightarrow>
          (case mix_keys (cls c) of
             None \<Rightarrow> s
           | Some keys \<Rightarrow>
               s\<lparr>components := fold (\<lambda>key m. m(key \<mapsto> Api cid key)) keys (components s)\<rparr>))"

text \<open>The inner function \<open>register\<close> of \<open>registerComponent\<close>, for one name: the verb
  callable is stored under the name, called at once with no arguments when the
  component is passive, and the \<open>mix()\<close> entries are written last.\<close>

definition register_name :: "nat \<Rightarrow> string \<Rightarrow> mix_state \<Rightarrow> hook_result \<times> mix_state" where
  "register_name cid name s =
     (let s1 = s\<lparr>components := (components s)(name \<mapsto> Verb cid name)\<rparr>
      in case store s1 cid of
           None \<Rightarrow> (Returns, s1)
         | Some c \<Rightarrow>
             (if is_passive (cls c)
              then (case verb_callable cid name [] s1 of
                      (Throws e, s2) \<Rightarrow> (Throws e, s2)
                    | (Returns, s2) \<Rightarrow> (Returns, write_api cid s2))
              else (Returns, write_api cid s1)))"

text \<open>\<open>names.forEach(name => register(name))\<close>: a throw ends the loop.\<close>

fun register_names :: "nat \<Rightarrow> string list \<Rightarrow> mix_state \<Rightarrow> hook_result \<times> mix_state" where
  "register_names cid [] s = (Returns, s)"
| "register_names cid (name # rest) s =
     (case register_name cid name s of
        (Throws e, s') \<Rightarrow> (Throws e, s')
      | (Returns, s') \<Rightarrow> register_names cid rest s')"

definition registerComponent :: "nat \<Rightarrow> mix_state \<Rightarrow> hook_result \<times> mix_state" where
  "registerComponent cid s =
     (case store s cid of
        None \<Rightarrow> (Returns, s)
      | Some c \<Rightarrow> register_names cid (names_of (cls c)) s)"

text \<open>
  \<open>new Component()\<close>, or an instance that was not installed before: the instance gets
  the next free identity.
\<close>

definition allocate :: "component_class \<Rightarrow> mix_state \<Rightarrow> mix_state" where
  "allocate k s =
     s\<lparr>store := (store s)(next_component s \<mapsto> new_component k),
       next_component := Suc (next_component s)\<rparr>"

text \<open>\<open>install\<close>. A throw of \<open>registerComponent\<close> leaves before the two listeners are
  subscribed.\<close>

definition install :: "component_class \<Rightarrow> mix_state \<Rightarrow> hook_result \<times> mix_state" where
  "install k s =
     (let cid = next_component s
      in case registerComponent cid (allocate k s) of
           (Throws e, s2) \<Rightarrow> (Throws e, s2)
         | (Returns, s2) \<Rightarrow>
             (Returns,
              listen ''init'' (Init cid)
                (listen ''internal:gather-dependencies'' (GatherDependencies cid) s2)))"

text \<open>\<open>installAll\<close>: \<open>forEach(install)\<close> over the required component modules, in order.\<close>

fun installAll :: "component_class list \<Rightarrow> mix_state \<Rightarrow> hook_result \<times> mix_state" where
  "installAll [] s = (Returns, s)"
| "installAll (k # ks) s =
     (case install k s of
        (Throws e, s') \<Rightarrow> (Throws e, s')
      | (Returns, s') \<Rightarrow> installAll ks s')"

definition is_active :: "nat \<Rightarrow> mix_state \<Rightarrow> bool" where
  "is_active cid s =
     (case store s cid of None \<Rightarrow> False | Some c \<Rightarrow> activated c \<or> is_passive (cls c))"

definition applyBabelConfig :: "nat \<Rightarrow> mix_state \<Rightarrow> hook_result \<times> mix_state" where
  "applyBabelConfig cid s =
     (case call_hook cid BabelConfig [] s of
        (Throws e, s') \<Rightarrow> (Throws e, s')
      | (Returns, s') \<Rightarrow> (Returns, emit (BabelMerged cid) s'))"

definition has_hook :: "nat \<Rightarrow> hook \<Rightarrow> mix_state \<Rightarrow> bool" where
  "has_hook cid h s =
     (case store s cid of None \<Rightarrow> False | Some c \<Rightarrow> hooks (cls c) h \<noteq> None)"

text \<open>
  \<open>applyRules\<close> and \<open>applyPlugins\<close> call the hook without arguments; what it returns is
  appended to the payload array, which the model does not keep: the trace keeps the
  call.
\<close>

definition applyRules :: "nat \<Rightarrow> mix_state \<Rightarrow> hook_result \<times> mix_state" where
  "applyRules cid s = call_hook cid WebpackRules [] s"

definition applyPlugins :: "nat \<Rightarrow> mix_state \<Rightarrow> hook_result \<times> mix_state" where
  "applyPlugins cid s = call_hook cid WebpackPlugins [] s"

text \<open>The bodies of the listeners that \<open>install\<close> and \<open>boot\<close> subscribe.\<close>

fun run_handler :: "handler \<Rightarrow> val \<Rightarrow> mix_state \<Rightarrow> hook_result \<times> mix_state" where
  "run_handler (GatherDependencies cid) d s =
     (if \<not> is_active cid s then (Returns, s)
      else if \<not> has_hook cid Dependencies s then (Returns, s)
      else (case call_hook cid Dependencies [] s of
              (Throws e, s') \<Rightarrow> (Throws e, s')
            | (Returns, s') \<Rightarrow>
                (Returns,
                 emit (Queued cid (case store s' cid of None \<Rightarrow> False
                                   | Some c \<Rightarrow> requiresReload (cls c))) s')))"
| "run_handler (Init cid) d s =
     (if \<not> is_active cid s then (Returns, s)
      else (case call_hook cid Boot [] s of
              (Throws e, s1) \<Rightarrow> (Throws e, s1)
            | (Returns, s1) \<Rightarrow>
                (case (if has_hook cid BabelConfig s1 then applyBabelConfig cid s1
                       else (Returns, s1)) of
                   (Throws e, s2) \<Rightarrow> (Throws e, s2)
                 | (Returns, s2) \<Rightarrow>
                     (Returns,
                      listen ''configReady'' (ConfigReady cid)
                        (listen ''loading-plugins'' (LoadingPlugins cid)
                          (listen ''loading-rules'' (LoadingRules cid)
                            (listen ''loading-entry'' (LoadingEntry cid) s2)))))))"
| "run_handler (LoadingEntry cid) d s = call_hook cid WebpackEntry [d] s"
| "run_handler (LoadingRules cid) d s =
     (if has_hook cid WebpackRules s then applyRules cid s else (Returns, s))"
| "run_handler (LoadingPlugins cid) d s =
     (if has_hook cid WebpackPlugins s then applyPlugins cid s else (Returns, s))"
| "run_handler (ConfigReady cid) d s = call_hook cid WebpackConfig [d] s"
| "run_handler HotRecord d s = (Returns, emit HotRecorded s)"

text \<open>
  Modelled from the spec: \<open>Dispatcher.fire\<close> invokes the handlers registered for the
  name, in registration order, each settled before the next begins; a handler that
  throws aborts the remaining ones and the failure goes to the caller of \<open>fire\<close>.
\<close>

fun run_handlers :: "handler list \<Rightarrow> val \<Rightarrow> mix_state \<Rightarrow> hook_result \<times> mix_state" where
  "run_handlers [] d s = (Returns, s)"
| "run_handlers (h # hs) d s =
     (case run_handler h d s of
        (Throws e, s') \<Rightarrow> (Throws e, s')
      | (Returns, s') \<Rightarrow> run_handlers hs d s')"

definition handlers_for :: "string \<Rightarrow> mix_state \<Rightarrow> handler list" where
  "handlers_for event s = map snd (filter (\<lambda>p. fst p = event) (listeners s))"

definition fire :: "string \<Rightarrow> val \<Rightarrow> mix_state \<Rightarrow> hook_result \<times> mix_state" where
  "fire event d s = run_handlers (handlers_for event s) d (emit (Fired event d) s)"

subsection \<open>What a build script does to a registrar\<close>

text \<open>
  A build script installs components, calls the entries of \<open>registrar.components\<close> by
  name and lets lifecycle events fire. A call of a name that has no entry is a
  TypeError and changes nothing; a function from a \<open>mix()\<close> map is a black box whose
  call is recorded. A failed action keeps the effects it had before it failed, and the
  script may go on after it. (The deprecated \<open>installDependencies\<close> of the registrar,
  which no lifecycle path calls, is not among the actions.)
\<close>

datatype action =
  Install component_class
  | Invoke string "val list"
  | Fire string val

definition invoke :: "string \<Rightarrow> val list \<Rightarrow> mix_state \<Rightarrow> hook_result \<times> mix_state" where
  "invoke name args s =
     (case components s name of
        None \<Rightarrow> (Throws (Error ''TypeError: not a function''), s)
      | Some (Verb cid n) \<Rightarrow> verb_callable cid n args s
      | Some (Api cid key) \<Rightarrow> (Returns, emit (ApiCall cid key args) s)
      | Some InProduction \<Rightarrow> (Returns, s))"

fun perform :: "action \<Rightarrow> mix_state \<Rightarrow> hook_result \<times> mix_state" where
  "perform (Install k) s = install k s"
| "perform (Invoke name args) s = invoke name args s"
| "perform (Fire event d) s = fire event d s"

definition run :: "action list \<Rightarrow> mix_state \<Rightarrow> mix_state" where
  "run acts s = fold (\<lambda>a t. snd (perform a t)) acts s"

section \<open>Mix: contexts\<close>

text \<open>
  A context owns its children, so a context with its descendants is a tree. The fields
  the orchestration core reads and writes are in \<open>mix_state\<close>.
\<close>

datatype mix = Mix (self: mix_state) (children: "mix list")

text \<open>
  The process-wide state: the statics of the class (\<open>Mix.current\<close>, \<open>Mix._primary\<close>), the
  globals that \<open>makeCurrent\<close> sets (\<open>global.Mix\<close>, \<open>global.Config\<close>,
  \<open>global.webpackConfig\<close> and the current chunks all point into the same context, so
  one field holds its identity), the console, and what the environment answers:
  whether \<open>./artisan\<close> exists, \<open>process.env.MIX_GROUP\<close>, and the component modules that
  \<open>installAll\<close> requires. \<open>next_ident\<close> is the identity the next \<open>new Mix\<close> gets.
\<close>

record globals =
  current :: "nat list"
  primary :: "nat option"
  global_Mix :: "nat option"
  warnings :: "string list"
  dotenv_loads :: nat
  artisan :: bool
  MIX_GROUP :: "string option"
  modules :: "component_class list"
  next_ident :: nat

text \<open>A deferred result acts, when it settles, on the context it belongs to and on the
  process-wide state. A callback returns a plain value, returns a deferred result, or
  throws.\<close>

type_synonym deferred = "mix \<Rightarrow> globals \<Rightarrow> settled \<times> mix \<times> globals"

datatype outcome = Returned val | ReturnedPromise deferred | Threw err

type_synonym callback = "mix \<Rightarrow> globals \<Rightarrow> outcome \<times> mix \<times> globals"

definition resolveOptions :: "string option \<Rightarrow> string" where
  "resolveOptions nm = (case nm of None \<Rightarrow> ''Mix'' | Some n \<Rightarrow> n)"

definition new_state :: "nat \<Rightarrow> string \<Rightarrow> mix_state" where
  "new_state i nm =
     \<lparr>ident = i, ctx_name = nm, booted = False, initialized = False, publicPath = None,
      listeners = [], store = Map.empty, next_component = 0, components = Map.empty,
      ledger = [], trace = [], api_installed = False\<rparr>"

definition new_Mix :: "string option \<Rightarrow> globals \<Rightarrow> mix \<times> globals" where
  "new_Mix nm g =
     (Mix (new_state (next_ident g) (resolveOptions nm)) [],
      g\<lparr>next_ident := Suc (next_ident g)\<rparr>)"

definition on_self :: "(mix_state \<Rightarrow> mix_state) \<Rightarrow> mix \<Rightarrow> mix" where
  "on_self f m = Mix (f (self m)) (children m)"

definition sees :: "string \<Rightarrow> globals \<Rightarrow> bool" where
  "sees tool g = (if tool = ''laravel'' then artisan g else False)"

definition makeCurrent :: "nat \<Rightarrow> globals \<Rightarrow> globals" where
  "makeCurrent i g = g\<lparr>global_Mix := Some i\<rparr>"

text \<open>\<open>Mix.current.push(this.makeCurrent())\<close>; the top of the stack is the last element.\<close>

definition pushCurrent :: "mix \<Rightarrow> globals \<Rightarrow> globals" where
  "pushCurrent this g =
     (let g1 = makeCurrent (ident (self this)) g
      in g1\<lparr>current := current g1 @ [ident (self this)]\<rparr>)"

text \<open>\<open>pop()\<close> on an empty array does nothing; the context below, if there is one, is
  made current again.\<close>

definition popCurrent :: "globals \<Rightarrow> globals" where
  "popCurrent g =
     (let g1 = g\<lparr>current := butlast (current g)\<rparr>
      in case current g1 of [] \<Rightarrow> g1 | _ # _ \<Rightarrow> makeCurrent (last (current g1)) g1)"

definition boot :: "mix \<Rightarrow> globals \<Rightarrow> mix \<times> globals" where
  "boot this g =
     (if booted (self this) then (this, g)
      else
        (let this1 = on_self (\<lambda>s. s\<lparr>booted := True\<rparr>) this;
             g1 = (if primary g = Some (ident (self this))
                   then g\<lparr>dotenv_loads := Suc (dotenv_loads g)\<rparr> else g);
             this2 = (if sees ''laravel'' g1
                      then on_self (\<lambda>s. s\<lparr>publicPath := Some ''public''\<rparr>) this1 else this1);
             this3 = on_self (listen ''init'' HotRecord) this2
         in (this3, pushCurrent this3 g1)))"

text \<open>\<open>promise.finally(f)\<close>: \<open>f\<close> runs when the promise settles, and the settlement
  passes through.\<close>

definition finally_do :: "deferred \<Rightarrow> (globals \<Rightarrow> globals) \<Rightarrow> deferred" where
  "finally_do p f = (\<lambda>m g. case p m g of (r, m', g') \<Rightarrow> (r, m', f g'))"

definition whileCurrent :: "callback \<Rightarrow> mix \<Rightarrow> globals \<Rightarrow> outcome \<times> mix \<times> globals" where
  "whileCurrent callback this g =
     (case callback this (pushCurrent this g) of
        (ReturnedPromise result, this', g') \<Rightarrow>
          (ReturnedPromise (finally_do result popCurrent), this', g')
      | (Threw e, this', g') \<Rightarrow> (Threw e, this', popCurrent g')
      | (Returned v, this', g') \<Rightarrow> (Returned Undefined, this', popCurrent g'))"

text \<open>
  A deferred result of a child, seen from its parent: it acts on the child at the
  position where \<open>withChild\<close> pushed it. Children are only ever appended, so the
  position stays valid; were it not, the child object would still be the one the
  deferred result holds.
\<close>

definition at_child :: "nat \<Rightarrow> mix \<Rightarrow> deferred \<Rightarrow> deferred" where
  "at_child i held p =
     (\<lambda>parent g.
        if i < length (children parent)
        then (case p (children parent ! i) g of
                (r, c', g') \<Rightarrow> (r, Mix (self parent) ((children parent)[i := c']), g'))
        else (case p held g of (r, c', g') \<Rightarrow> (r, parent, g')))"

definition withChild :: "string \<Rightarrow> callback \<Rightarrow> mix \<Rightarrow> globals \<Rightarrow> outcome \<times> mix \<times> globals" where
  "withChild nm callback this g =
     (case new_Mix (Some nm) g of
        (fresh, g0) \<Rightarrow>
          (case boot fresh g0 of
             (context, g1) \<Rightarrow>
               (case whileCurrent callback context g1 of
                  (r, context', g2) \<Rightarrow>
                    ((case r of
                        ReturnedPromise p \<Rightarrow>
                          ReturnedPromise (at_child (length (children this)) context' p)
                      | Returned v \<Rightarrow> Returned v
                      | Threw e \<Rightarrow> Threw e),
                     Mix (self this) (children this @ [context']), g2))))"

subsection \<open>Dispatching events\<close>

text \<open>The \<open>data\<close> argument of \<open>dispatch\<close> is a value or a function that yields one.\<close>

datatype payload = Value val | Thunk val

definition force :: "payload \<Rightarrow> val" where
  "force data = (case data of Value v \<Rightarrow> v | Thunk v \<Rightarrow> v)"

definition settle :: "hook_result \<Rightarrow> settled" where
  "settle r = (case r of Returns \<Rightarrow> Resolved Undefined | Throws e \<Rightarrow> Rejected e)"

definition already :: "settled \<Rightarrow> deferred" where
  "already r = (\<lambda>m g. (r, m, g))"

text \<open>What an \<open>async\<close> function hands to its caller.\<close>

definition as_promise :: "outcome \<Rightarrow> deferred" where
  "as_promise r =
     (case r of
        Returned v \<Rightarrow> already (Resolved v)
      | Threw e \<Rightarrow> already (Rejected e)
      | ReturnedPromise p \<Rightarrow> p)"

text \<open>
  \<open>dispatch\<close>: the handlers run, while this context is current, when \<open>fire\<close> is called;
  the deferred result that \<open>fire\<close> returns carries how they ended, and \<open>popCurrent\<close> runs
  when it settles.
\<close>

definition dispatch :: "string \<Rightarrow> payload \<Rightarrow> mix \<Rightarrow> globals \<Rightarrow> deferred \<times> mix \<times> globals" where
  "dispatch event data this g =
     (case whileCurrent
             (\<lambda>m g'. case fire event (force data) (self m) of
                        (r, s') \<Rightarrow> (ReturnedPromise (already (settle r)), Mix s' (children m), g'))
             this g of
        (r, this', g') \<Rightarrow> (as_promise r, this', g'))"

text \<open>\<open>this.children.map(child => child.dispatch(event, data))\<close>.\<close>

fun dispatch_each :: "string \<Rightarrow> payload \<Rightarrow> mix list \<Rightarrow> globals \<Rightarrow> deferred list \<times> mix list \<times> globals" where
  "dispatch_each event data [] g = ([], [], g)"
| "dispatch_each event data (child # rest) g =
     (case dispatch event data child g of
        (p, child', g1) \<Rightarrow>
          (case dispatch_each event data rest g1 of
             (ps, rest', g2) \<Rightarrow> (p # ps, child' # rest', g2)))"

text \<open>\<open>await Promise.all(promises)\<close>: every deferred result settles; the join rejects with
  the first rejection and resolves with all the values otherwise.\<close>

fun await_each :: "deferred list \<Rightarrow> mix list \<Rightarrow> globals \<Rightarrow> settled list \<times> mix list \<times> globals" where
  "await_each (p # ps) (c # cs) g =
     (case p c g of
        (r, c', g1) \<Rightarrow>
          (case await_each ps cs g1 of
             (rs, cs', g2) \<Rightarrow> (r # rs, c' # cs', g2)))"
| "await_each ps cs g = ([], cs, g)"

fun all_settled :: "settled list \<Rightarrow> err + val list" where
  "all_settled [] = Inr []"
| "all_settled (Rejected e # rs) = Inl e"
| "all_settled (Resolved v # rs) =
     (case all_settled rs of Inl e \<Rightarrow> Inl e | Inr vs \<Rightarrow> Inr (v # vs))"

definition Promise_all :: "settled list \<Rightarrow> settled" where
  "Promise_all rs = (case all_settled rs of Inl e \<Rightarrow> Rejected e | Inr vs \<Rightarrow> Resolved (Arr vs))"

definition dispatchToChildren :: "string \<Rightarrow> payload \<Rightarrow> mix \<Rightarrow> globals \<Rightarrow> settled \<times> mix \<times> globals" where
  "dispatchToChildren event data this g =
     (case dispatch_each event data (children this) g of
        (promises, cs1, g1) \<Rightarrow>
          (case await_each promises cs1 g1 of
             (results, cs2, g2) \<Rightarrow> (Promise_all results, Mix (self this) cs2, g2)))"

definition init :: "mix \<Rightarrow> globals \<Rightarrow> settled \<times> mix \<times> globals" where
  "init this g =
     (if initialized (self this) then (Resolved Undefined, this, g)
      else
        (let this1 = on_self (\<lambda>s. s\<lparr>initialized := True\<rparr>) this;
             data = Value (Obj (ident (self this)))
         in case dispatch ''init'' data this1 g of
              (p, this2, g2) \<Rightarrow>
                (case p this2 g2 of
                   (Rejected e, this3, g3) \<Rightarrow> (Rejected e, this3, g3)
                 | (Resolved v, this3, g3) \<Rightarrow>
                     (case dispatchToChildren ''init'' data this3 g3 of
                        (Rejected e, this4, g4) \<Rightarrow> (Rejected e, this4, g4)
                      | (Resolved w, this4, g4) \<Rightarrow> (Resolved Undefined, this4, g4)))))"

subsection \<open>Building the configurations\<close>

text \<open>An element that \<open>buildConfigs\<close> yields: the call \<open>webpackConfig.build()\<close> of the
  context in the given state.\<close>

datatype build_op = WebpackConfig_build mix_state

fun buildConfigs :: "mix \<Rightarrow> build_op list" where
  "buildConfigs (Mix s cs) =
     (if length cs = 0 then [WebpackConfig_build s] else []) @ concat (map buildConfigs cs)"

text \<open>The bundler-configuration builder is outside the core: \<open>settle_build\<close> says how
  each yielded operation settles.\<close>

definition setup_warning :: string where
  "setup_warning =
     ''Mix was not set up correctly. Please ensure you import or require laravel-mix in your mix config.''"

definition console_warn :: "string \<Rightarrow> globals \<Rightarrow> globals" where
  "console_warn msg g = g\<lparr>warnings := warnings g @ [msg]\<rparr>"

definition build :: "(build_op \<Rightarrow> settled) \<Rightarrow> mix \<Rightarrow> globals \<Rightarrow> settled \<times> mix \<times> globals" where
  "build settle_build this g =
     (case (if \<not> booted (self this) then boot this (console_warn setup_warning g)
            else (this, g)) of
        (this1, g1) \<Rightarrow> (Promise_all (map settle_build (buildConfigs this1)), this1, g1))"

section \<open>Group\<close>

text \<open>The \<open>api\<close> getter of a context: the first read installs all default components
  and adds \<open>inProduction\<close>.\<close>

definition api :: "mix \<Rightarrow> globals \<Rightarrow> hook_result \<times> mix" where
  "api this g =
     (if api_installed (self this) then (Returns, this)
      else (case installAll (modules g) (self this) of
              (Throws e, s') \<Rightarrow> (Throws e, Mix s' (children this))
            | (Returns, s') \<Rightarrow>
                (Returns,
                 Mix (s'\<lparr>api_installed := True,
                         components := (components s')(''inProduction'' \<mapsto> InProduction)\<rparr>)
                   (children this))))"

text \<open>
  \<open>Group.register\<close>: \<open>None\<close> is a missing (falsy) callback. The callback of the group is
  called with the child's \<open>api\<close> and the child. The result of \<open>withChild\<close> is not
  returned: a deferred result it produced stays pending, which the second component of
  the result keeps.
\<close>

definition Group_register ::
    "string \<Rightarrow> callback option \<Rightarrow> mix \<Rightarrow> globals \<Rightarrow> (outcome \<times> deferred option) \<times> mix \<times> globals" where
  "Group_register nm callback parent g =
     (case callback of
        None \<Rightarrow> ((Threw (Error ''A callback must be passed to mix.group()''), None), parent, g)
      | Some cb \<Rightarrow>
          (let shouldBuild = (Some nm = MIX_GROUP g \<or> MIX_GROUP g = None \<or> MIX_GROUP g = Some [])
           in if \<not> shouldBuild then ((Returned Undefined, None), parent, g)
              else (case withChild nm
                           (\<lambda>context g'. case api context g' of
                                            (Throws e, context') \<Rightarrow> (Threw e, context', g')
                                          | (Returns, context') \<Rightarrow> cb context' g')
                           parent g of
                      (Threw e, parent', g') \<Rightarrow> ((Threw e, None), parent', g')
                    | (Returned v, parent', g') \<Rightarrow> ((Returned Undefined, None), parent', g')
                    | (ReturnedPromise p, parent', g') \<Rightarrow>
                        ((Returned Undefined, Some p), parent', g'))))"

section \<open>Auxiliary notions for the statements\<close>

text \<open>The register hook of a class is absent or returns when called without arguments.\<close>

definition register_ok :: "component_class \<Rightarrow> bool" where
  "register_ok k = (case hooks k Register of None \<Rightarrow> True | Some f \<Rightarrow> f [] = Returns)"

text \<open>The calls of the register hook that one argument-free invocation per name makes.\<close>

definition register_calls :: "component_class \<Rightarrow> nat \<Rightarrow> string list \<Rightarrow> effect list" where
  "register_calls k cid names =
     (case hooks k Register of None \<Rightarrow> [] | Some f \<Rightarrow> map (\<lambda>n. HookCall cid Register []) names)"

text \<open>A context and all its descendants, parents before children; the ones among them
  that have no children.\<close>

fun contexts :: "mix \<Rightarrow> mix list" where
  "contexts (Mix s cs) = Mix s cs # concat (map contexts cs)"

definition leaf_contexts :: "mix \<Rightarrow> mix list" where
  "leaf_contexts this = filter (\<lambda>m. children m = []) (contexts this)"

text \<open>The child that \<open>withChild\<close> creates: \<open>new Mix({ name }).boot()\<close>.\<close>

definition new_child :: "string \<Rightarrow> globals \<Rightarrow> mix \<times> globals" where
  "new_child nm g = (case new_Mix (Some nm) g of (fresh, g0) \<Rightarrow> boot fresh g0)"

text \<open>
  A computation keeps the stack when it leaves \<open>Mix.current\<close> the way it found it. A
  callback is balanced when it keeps the stack, and so does the deferred result it
  returns, if it returns one. \<open>settled_globals\<close> is the process-wide state once a call
  has returned and the deferred result it returned, if any, has settled.
\<close>

definition keeps_stack :: "(mix \<Rightarrow> globals \<Rightarrow> 'r \<times> mix \<times> globals) \<Rightarrow> bool" where
  "keeps_stack f \<longleftrightarrow> (\<forall>m x. current (snd (snd (f m x))) = current x)"

definition balanced :: "callback \<Rightarrow> bool" where
  "balanced cb \<longleftrightarrow>
     keeps_stack cb \<and>
     (\<forall>m x. case fst (cb m x) of
              ReturnedPromise p \<Rightarrow> keeps_stack p
            | Returned v \<Rightarrow> True
            | Threw e \<Rightarrow> True)"

definition settled_globals :: "outcome \<times> mix \<times> globals \<Rightarrow> globals" where
  "settled_globals r =
     (case r of
        (ReturnedPromise p, m, g) \<Rightarrow> snd (snd (p m g))
      | (Returned v, m, g) \<Rightarrow> g
      | (Threw e, m, g) \<Rightarrow> g)"

text \<open>
  A context after \<open>fire\<close> ran on its own dispatcher (its children are not touched), how
  that firing settled, and a context with its \<open>initialized\<close> flag set.
\<close>

definition fired :: "string \<Rightarrow> payload \<Rightarrow> mix \<Rightarrow> mix" where
  "fired ev data c = Mix (snd (fire ev (force data) (self c))) (children c)"

definition fire_result :: "string \<Rightarrow> payload \<Rightarrow> mix \<Rightarrow> settled" where
  "fire_result ev data c = settle (fst (fire ev (force data) (self c)))"

definition mark_initialized :: "mix \<Rightarrow> mix" where
  "mark_initialized this = on_self (\<lambda>s. s\<lparr>initialized := True\<rparr>) this"

text \<open>The four hooks that contribute to the configuration, and the component whose
  hook a second-order listener (one subscribed inside the init listener) forwards to.\<close>

definition contribution_hooks :: "hook set" where
  "contribution_hooks = {WebpackEntry, WebpackRules, WebpackPlugins, WebpackConfig}"

fun second_order :: "handler \<Rightarrow> nat option" where
  "second_order (LoadingEntry cid) = Some cid"
| "second_order (LoadingRules cid) = Some cid"
| "second_order (LoadingPlugins cid) = Some cid"
| "second_order (ConfigReady cid) = Some cid"
| "second_order h = None"

text \<open>In a trace, every call of a contribution hook of a component that \<open>B\<close> holds of
  comes after a call of the boot hook of that component.\<close>

definition boot_first :: "(nat \<Rightarrow> bool) \<Rightarrow> effect list \<Rightarrow> bool" where
  "boot_first B t \<longleftrightarrow>
     (\<forall>pre cid h args post.
        t = pre @ HookCall cid h args # post \<longrightarrow> h \<in> contribution_hooks \<longrightarrow> B cid \<longrightarrow>
        HookCall cid Boot [] \<in> set pre)"

definition is_activated :: "nat \<Rightarrow> mix_state \<Rightarrow> bool" where
  "is_activated cid s = (case store s cid of None \<Rightarrow> False | Some c \<Rightarrow> activated c)"

text \<open>
  What holds of a registrar after any build script: identities from \<open>next_component\<close> on
  are free and occur nowhere; an activated component has a ledger entry; every hook
  call but a register call belongs to a component that is activated or passive, and a
  register call to one with a ledger entry; a second-order listener belongs to a
  component that is activated or passive and, if it has a boot hook, after that hook
  was called; and the trace has the boot calls first.
\<close>

definition registrar_inv :: "mix_state \<Rightarrow> bool" where
  "registrar_inv s \<longleftrightarrow>
     (\<forall>cid. next_component s \<le> cid \<longrightarrow> store s cid = None) \<and>
     (\<forall>cid h args. HookCall cid h args \<in> set (trace s) \<longrightarrow> cid < next_component s) \<and>
     (\<forall>cid. is_activated cid s \<longrightarrow> cid \<in> snd ` set (ledger s)) \<and>
     (\<forall>cid h args. HookCall cid h args \<in> set (trace s) \<longrightarrow> h \<noteq> Register \<longrightarrow> is_active cid s) \<and>
     (\<forall>cid args. HookCall cid Register args \<in> set (trace s) \<longrightarrow> cid \<in> snd ` set (ledger s)) \<and>
     (\<forall>ev h cid. (ev, h) \<in> set (listeners s) \<longrightarrow> second_order h = Some cid \<longrightarrow> is_active cid s) \<and>
     (\<forall>ev h cid. (ev, h) \<in> set (listeners s) \<longrightarrow> second_order h = Some cid \<longrightarrow>
        has_hook cid Boot s \<longrightarrow> HookCall cid Boot [] \<in> set (trace s)) \<and>
     boot_first (\<lambda>cid. has_hook cid Boot s) (trace s)"

text \<open>A handler may run: if it is a second-order listener, its component is activated or
  passive and its boot hook, if any, has been called.\<close>

definition armed :: "handler \<Rightarrow> mix_state \<Rightarrow> bool" where
  "armed hdl s \<longleftrightarrow>
     (\<forall>cid. second_order hdl = Some cid \<longrightarrow>
        is_active cid s \<and> (has_hook cid Boot s \<longrightarrow> HookCall cid Boot [] \<in> set (trace s)))"

text \<open>
  An \<open>init\<close> firing is in the trace; in a trace, every call of a contribution hook comes
  after an \<open>init\<close> firing; the init listener of \<open>install\<close>.
\<close>

definition init_fired :: "effect list \<Rightarrow> bool" where
  "init_fired t \<longleftrightarrow> (\<exists>d. Fired ''init'' d \<in> set t)"

definition init_first :: "effect list \<Rightarrow> bool" where
  "init_first t \<longleftrightarrow>
     (\<forall>pre cid h args post.
        t = pre @ HookCall cid h args # post \<longrightarrow> h \<in> contribution_hooks \<longrightarrow> init_fired pre)"

fun is_init_listener :: "handler \<Rightarrow> bool" where
  "is_init_listener (Init cid) = True"
| "is_init_listener h = False"

text \<open>
  What also holds of a registrar after any build script: an init listener is subscribed
  to \<open>init\<close> and to nothing else; a second-order listener exists only once \<open>init\<close> has
  fired; and the trace has an \<open>init\<close> firing before every contribution-hook call.
\<close>

definition init_inv :: "mix_state \<Rightarrow> bool" where
  "init_inv s \<longleftrightarrow>
     (\<forall>ev h. (ev, h) \<in> set (listeners s) \<longrightarrow> is_init_listener h \<longrightarrow> ev = ''init'') \<and>
     (\<forall>ev h. (ev, h) \<in> set (listeners s) \<longrightarrow> second_order h \<noteq> None \<longrightarrow> init_fired (trace s)) \<and>
     init_first (trace s)"

text \<open>A handler that is an init listener or a second-order listener runs only once
  \<open>init\<close> has fired.\<close>

definition after_init :: "handler \<Rightarrow> mix_state \<Rightarrow> bool" where
  "after_init hdl s \<longleftrightarrow> (is_init_listener hdl \<or> second_order hdl \<noteq> None \<longrightarrow> init_fired (trace s))"

text \<open>The second-order listeners of a registrar, in subscription order, and the actions
  that fire \<open>init\<close>.\<close>

definition second_order_listeners :: "mix_state \<Rightarrow> (string \<times> handler) list" where
  "second_order_listeners s = filter (\<lambda>p. second_order (snd p) \<noteq> None) (listeners s)"

fun fires_init :: "action \<Rightarrow> bool" where
  "fires_init (Fire ev d) = (ev = ''init'')"
| "fires_init a = False"

text \<open>What a yielded build operation is about: the name of the context, whether it is
  initialized, and what it has done so far.\<close>

definition described :: "build_op \<Rightarrow> string \<times> bool \<times> effect list" where
  "described op = (case op of WebpackConfig_build s \<Rightarrow> (ctx_name s, initialized s, trace s))"

section \<open>Example components and contexts\<close>

text \<open>A component registered under one explicit name, with every hook present and
  returning.\<close>

definition example_component :: "string \<Rightarrow> bool \<Rightarrow> component_class" where
  "example_component nm p =
     \<lparr>constructor_name = ''Example'', name_fn = Some [nm], is_passive = p, requiresReload = False,
      hooks = (\<lambda>h. Some (\<lambda>args. Returns)), mix_keys = None\<rparr>"

text \<open>A component whose register hook insists on an argument.\<close>

definition strict_component :: "bool \<Rightarrow> component_class" where
  "strict_component p =
     \<lparr>constructor_name = ''Strict'', name_fn = None, is_passive = p, requiresReload = False,
      hooks = (\<lambda>h. if h = Register
                    then Some (\<lambda>args. if args = [] then Throws (Error ''a source is required'')
                                      else Returns)
                    else None),
      mix_keys = None\<rparr>"

text \<open>A passive component whose \<open>name()\<close> yields no name at all.\<close>

definition nameless_component :: component_class where
  "nameless_component =
     \<lparr>constructor_name = ''Nameless'', name_fn = Some [], is_passive = True, requiresReload = False,
      hooks = (\<lambda>h. None), mix_keys = None\<rparr>"

text \<open>The primary context of a fresh process, booted.\<close>

definition fresh_globals :: globals where
  "fresh_globals =
     \<lparr>current = [], primary = None, global_Mix = None, warnings = [], dotenv_loads = 0,
      artisan = False, MIX_GROUP = None, modules = [], next_ident = 0\<rparr>"

definition booted_primary :: "mix \<times> globals" where
  "booted_primary =
     (case new_Mix None fresh_globals of
        (m, g) \<Rightarrow> boot m (g\<lparr>primary := Some (ident (self m))\<rparr>))"

text \<open>Callbacks for each way a callback can end.\<close>

definition returning_callback :: callback where
  "returning_callback = (\<lambda>m x. (Returned (Num 42), m, x))"

definition throwing_callback :: callback where
  "throwing_callback = (\<lambda>m x. (Threw (Error ''boom''), m, x))"

definition late_rejection :: deferred where
  "late_rejection = (\<lambda>m x. (Rejected (Error ''late''), m, x))"

definition rejecting_callback :: callback where
  "rejecting_callback = (\<lambda>m x. (ReturnedPromise late_rejection, m, x))"

definition late_resolution :: deferred where
  "late_resolution = (\<lambda>m x. (Resolved (Num 42), m, x))"

definition resolving_callback :: callback where
  "resolving_callback = (\<lambda>m x. (ReturnedPromise late_resolution, m, x))"

text \<open>A parent with a childless child and a child that has a child of its own.\<close>

definition family :: mix where
  "family =
     Mix (new_state 0 ''Mix'')
       [Mix (new_state 1 ''site'') [],
        Mix (new_state 2 ''admin'') [Mix (new_state 3 ''reports'') []]]"

text \<open>The scenario of the spec: a passive and a non-passive component are installed, the
  verb of the second is never invoked, and events fire.\<close>

definition scenario :: "action list" where
  "scenario =
     [Install (example_component ''notifications'' True),
      Install (example_component ''vue'' False),
      Fire ''init'' Undefined, Fire ''loading-rules'' (Arr [])]"

text \<open>Nested groups: \<open>withChild\<close> on the primary context, whose callback calls
  \<open>withChild\<close> on the new child.\<close>

definition nested_groups :: "outcome \<times> mix \<times> globals" where
  "nested_groups =
     withChild ''admin'' (withChild ''reports'' returning_callback)
       (fst booted_primary) (snd booted_primary)"

section \<open>Basic facts about the state updates\<close>

lemma emit_fields [simp]:
  "store (emit e s) = store s"
  "ledger (emit e s) = ledger s"
  "trace (emit e s) = trace s @ [e]"
  "listeners (emit e s) = listeners s"
  "components (emit e s) = components s"
  "next_component (emit e s) = next_component s"
  by (simp_all add: emit_def)

lemma record_component_fields [simp]:
  "store (record_component n cid s) = store s"
  "ledger (record_component n cid s) = ledger s @ [(n, cid)]"
  "trace (record_component n cid s) = trace s"
  "listeners (record_component n cid s) = listeners s"
  "components (record_component n cid s) = components s"
  "next_component (record_component n cid s) = next_component s"
  by (simp_all add: record_component_def)

lemma store_update_component:
  "store (update_component cid f s) =
     (case store s cid of None \<Rightarrow> store s | Some c \<Rightarrow> (store s)(cid \<mapsto> f c))"
  by (simp add: update_component_def split: option.splits)

lemma update_component_fields [simp]:
  "ledger (update_component cid f s) = ledger s"
  "trace (update_component cid f s) = trace s"
  "listeners (update_component cid f s) = listeners s"
  "components (update_component cid f s) = components s"
  "next_component (update_component cid f s) = next_component s"
  by (simp_all add: update_component_def split: option.splits)

lemma write_api_fields [simp]:
  "store (write_api cid s) = store s"
  "ledger (write_api cid s) = ledger s"
  "trace (write_api cid s) = trace s"
  "listeners (write_api cid s) = listeners s"
  "next_component (write_api cid s) = next_component s"
  by (simp_all add: write_api_def split: option.splits)

lemma listen_fields [simp]:
  "store (listen ev h s) = store s"
  "ledger (listen ev h s) = ledger s"
  "trace (listen ev h s) = trace s"
  "listeners (listen ev h s) = listeners s @ [(ev, h)]"
  "components (listen ev h s) = components s"
  "next_component (listen ev h s) = next_component s"
  by (simp_all add: listen_def)

lemma lower_first_Strict: "lower_first ''Strict'' = ''strict''"
  by code_simp

lemmas registrar_defs =
  install_def allocate_def registerComponent_def register_name_def write_api_def names_of_def
  verb_callable_def call_hook_def update_component_def record_component_def emit_def
  listen_def new_component_def new_state_def Let_def

section \<open>The verb callable\<close>

lemma verb_callable_unfold:
  assumes "store s cid = Some c"
  shows "case verb_callable cid name args s of
           (r, s') \<Rightarrow>
             ledger s' = ledger s @ [(name, cid)] \<and>
             r = (case hooks (cls c) Register of None \<Rightarrow> Returns | Some f \<Rightarrow> f args) \<and>
             trace s' = trace s @ (case hooks (cls c) Register of None \<Rightarrow> []
                                   | Some f \<Rightarrow> [HookCall cid Register args]) \<and>
             store s' cid = Some (c\<lparr>caller := Some name, activated := (r = Returns \<or> activated c)\<rparr>)"
  using assms
  by (auto simp: verb_callable_def call_hook_def store_update_component Let_def
           split: option.splits hook_result.splits prod.splits)

text \<open>
  C6 (as amended). Invoking the verb callable of an installed component under a name
  with arguments appends the pair of the name and the component to the build-record
  ledger, sets the component's caller field to the name, and calls the register hook,
  when present, with exactly those arguments and nothing else. When the hook is absent
  or returns, the activated flag is set; when the hook throws, the error goes to the
  caller of the verb and the activated flag is left as it was.
\<close>

theorem verb_callable_records_and_activates:
  assumes "store s cid = Some c"
  shows "case verb_callable cid name args s of
           (r, s') \<Rightarrow>
             ledger s' = ledger s @ [(name, cid)] \<and>
             r = (case hooks (cls c) Register of None \<Rightarrow> Returns | Some f \<Rightarrow> f args) \<and>
             trace s' = trace s @ (case hooks (cls c) Register of None \<Rightarrow> []
                                   | Some f \<Rightarrow> [HookCall cid Register args]) \<and>
             store s' cid = Some (c\<lparr>caller := Some name, activated := (r = Returns \<or> activated c)\<rparr>)"
  using assms by (rule verb_callable_unfold)

theorem verb_callable_records_and_activates_witness:
  "store (snd (install (example_component ''vue'' False) (new_state 0 ''Mix''))) 0
     = Some (new_component (example_component ''vue'' False)) \<and>
   (case verb_callable 0 ''vue'' [Str ''src/app.js'']
           (snd (install (example_component ''vue'' False) (new_state 0 ''Mix''))) of
      (r, s') \<Rightarrow>
        ledger s' = [(''vue'', 0)] \<and> r = Returns \<and>
        trace s' = [HookCall 0 Register [Str ''src/app.js'']] \<and>
        store s' 0 = Some \<lparr>cls = example_component ''vue'' False, activated = True,
                              caller = Some ''vue''\<rparr>)"
  using verb_callable_records_and_activates
    [where s = "snd (install (example_component ''vue'' False) (new_state 0 ''Mix''))"
       and cid = 0 and c = "new_component (example_component ''vue'' False)"
       and name = "''vue''" and args = "[Str ''src/app.js'']"]
  by (simp add: registrar_defs example_component_def)

text \<open>
  C6 as stated fails: the verb of the strict component, installed under the name
  \<open>strict\<close> and invoked without arguments, throws in its register hook, and the
  component is not activated.
\<close>

theorem verb_callable_throwing_register_counterexample:
  "components (snd (install (strict_component False) (new_state 0 ''Mix''))) ''strict''
     = Some (Verb 0 ''strict'') \<and>
   fst (verb_callable 0 ''strict'' [] (snd (install (strict_component False) (new_state 0 ''Mix''))))
     = Throws (Error ''a source is required'') \<and>
   map_option activated
     (store (snd (verb_callable 0 ''strict'' [] (snd (install (strict_component False) (new_state 0 ''Mix''))))) 0)
     = Some False"
  by (simp add: registrar_defs strict_component_def lower_first_Strict)

section \<open>Passive components at install time\<close>

lemma register_name_passive:
  assumes "store s cid = Some c" "is_passive (cls c)" "register_ok (cls c)"
  shows "\<exists>s'. register_name cid n s = (Returns, s') \<and>
           store s' cid = Some (c\<lparr>caller := Some n, activated := True\<rparr>) \<and>
           ledger s' = ledger s @ [(n, cid)] \<and>
           trace s' = trace s @ register_calls (cls c) cid [n] \<and>
           listeners s' = listeners s"
proof -
  let ?s1 = "s\<lparr>components := (components s)(n \<mapsto> Verb cid n)\<rparr>"
  have st: "store ?s1 cid = Some c" using assms(1) by simp
  from verb_callable_unfold [OF st, of n "[]"] assms(3)
  obtain s2 where v: "verb_callable cid n [] ?s1 = (Returns, s2)"
    and l: "ledger s2 = ledger s @ [(n, cid)]"
    and t: "trace s2 = trace s @ register_calls (cls c) cid [n]"
    and c: "store s2 cid = Some (c\<lparr>caller := Some n, activated := True\<rparr>)"
    by (cases "verb_callable cid n [] ?s1")
       (auto simp: register_ok_def register_calls_def split: option.splits)
  have li: "listeners s2 = listeners s"
    using v
    by (auto simp: verb_callable_def call_hook_def Let_def
             split: option.splits prod.splits hook_result.splits)
  show ?thesis
    using assms(1,2) v l t c li by (simp add: register_name_def)
qed

lemma register_names_passive:
  assumes "store s cid = Some c" "is_passive (cls c)" "register_ok (cls c)"
  shows "\<exists>s'. register_names cid ns s = (Returns, s') \<and>
           ledger s' = ledger s @ map (\<lambda>n. (n, cid)) ns \<and>
           trace s' = trace s @ register_calls (cls c) cid ns \<and>
           map_option cls (store s' cid) = Some (cls c) \<and>
           (ns \<noteq> [] \<longrightarrow> map_option activated (store s' cid) = Some True) \<and>
           listeners s' = listeners s"
  using assms
proof (induction ns arbitrary: s c)
  case Nil
  then show ?case by (simp add: register_calls_def split: option.splits)
next
  case (Cons n ns)
  from register_name_passive [OF Cons.prems, of n]
  obtain s1 where r: "register_name cid n s = (Returns, s1)"
    and c1: "store s1 cid = Some (c\<lparr>caller := Some n, activated := True\<rparr>)"
    and l1: "ledger s1 = ledger s @ [(n, cid)]"
    and t1: "trace s1 = trace s @ register_calls (cls c) cid [n]"
    and li: "listeners s1 = listeners s"
    by blast
  from Cons.IH [OF c1] Cons.prems(2,3)
  obtain s2 where r2: "register_names cid ns s1 = (Returns, s2)"
    and l2: "ledger s2 = ledger s1 @ map (\<lambda>n. (n, cid)) ns"
    and t2: "trace s2 = trace s1 @ register_calls (cls c) cid ns"
    and k2: "map_option cls (store s2 cid) = Some (cls c)"
    and a2: "ns \<noteq> [] \<longrightarrow> map_option activated (store s2 cid) = Some True"
    and li2: "listeners s2 = listeners s1"
    by auto
  have a2': "map_option activated (store s2 cid) = Some True"
  proof (cases ns)
    case Nil
    then show ?thesis using r2 c1 by simp
  next
    case (Cons a list)
    then show ?thesis using a2 by simp
  qed
  show ?case
    using r r2 l1 l2 t1 t2 k2 a2' li li2
    by (simp add: register_calls_def split: option.splits)
qed

text \<open>
  C7 (as amended). Installing a passive component whose register hook is absent or
  returns when called without arguments succeeds, and during the install the verb
  callable of every name the component declares is invoked exactly once, in order,
  without arguments (one ledger entry and, when the hook is present, one argument-free
  register call per name, and nothing else); when the component declares at least one
  name, it is activated when \<open>install\<close> returns.
\<close>

theorem install_passive_invokes_each_verb_once:
  assumes "is_passive k" and "register_ok k"
  shows "case install k s of
           (r, s') \<Rightarrow>
             r = Returns \<and>
             ledger s' = ledger s @ map (\<lambda>n. (n, next_component s)) (names_of k) \<and>
             trace s' = trace s @ register_calls k (next_component s) (names_of k) \<and>
             (names_of k \<noteq> [] \<longrightarrow>
                map_option activated (store s' (next_component s)) = Some True)"
proof -
  let ?cid = "next_component s"
  let ?s1 = "allocate k s"
  have st: "store ?s1 ?cid = Some (new_component k)" by (simp add: allocate_def)
  have k: "cls (new_component k) = k" by (simp add: new_component_def)
  from register_names_passive [OF st, of "names_of k"] assms k
  obtain s2 where r: "register_names ?cid (names_of k) ?s1 = (Returns, s2)"
    and l: "ledger s2 = ledger s @ map (\<lambda>n. (n, ?cid)) (names_of k)"
    and t: "trace s2 = trace s @ register_calls k ?cid (names_of k)"
    and a: "names_of k \<noteq> [] \<longrightarrow> map_option activated (store s2 ?cid) = Some True"
    by (auto simp: allocate_def)
  show ?thesis
    using r l t a k st by (simp add: install_def registerComponent_def Let_def)
qed

theorem install_passive_invokes_each_verb_once_witness:
  "is_passive (example_component ''notifications'' True) \<and>
   register_ok (example_component ''notifications'' True) \<and>
   names_of (example_component ''notifications'' True) = [''notifications''] \<and>
   (case install (example_component ''notifications'' True) (new_state 0 ''Mix'') of
      (r, s') \<Rightarrow>
        r = Returns \<and> ledger s' = [(''notifications'', 0)] \<and>
        trace s' = [HookCall 0 Register []] \<and>
        map_option activated (store s' 0) = Some True)"
  using install_passive_invokes_each_verb_once
    [where k = "example_component ''notifications'' True" and s = "new_state 0 ''Mix''"]
  by (simp add: example_component_def register_ok_def register_calls_def names_of_def
        new_state_def)

text \<open>
  C7 as stated fails on two passive components: the strict one, whose argument-free
  automatic invocation throws out of \<open>install\<close> and leaves it not activated, and the
  nameless one, which gets no verb callable, so none is invoked and it is never
  activated.
\<close>

theorem install_passive_not_activated_counterexample:
  "is_passive (strict_component True) \<and>
   fst (install (strict_component True) (new_state 0 ''Mix'')) = Throws (Error ''a source is required'') \<and>
   map_option activated (store (snd (install (strict_component True) (new_state 0 ''Mix''))) 0)
     = Some False \<and>
   is_passive nameless_component \<and>
   fst (install nameless_component (new_state 0 ''Mix'')) = Returns \<and>
   ledger (snd (install nameless_component (new_state 0 ''Mix''))) = [] \<and>
   map_option activated (store (snd (install nameless_component (new_state 0 ''Mix''))) 0)
     = Some False"
  by (simp add: registrar_defs strict_component_def nameless_component_def lower_first_Strict)

section \<open>The current-context stack\<close>

lemma current_pushCurrent [simp]: "current (pushCurrent this g) = current g @ [ident (self this)]"
  by (simp add: pushCurrent_def makeCurrent_def)

lemma current_popCurrent [simp]: "current (popCurrent g) = butlast (current g)"
  by (simp add: popCurrent_def makeCurrent_def Let_def split: list.splits)

lemma next_ident_pushCurrent [simp]: "next_ident (pushCurrent this g) = next_ident g"
  by (simp add: pushCurrent_def makeCurrent_def)

lemmas mix_defs =
  boot_def new_Mix_def new_state_def resolveOptions_def on_self_def sees_def listen_def
  pushCurrent_def popCurrent_def makeCurrent_def whileCurrent_def withChild_def
  finally_do_def at_child_def Let_def

lemma booted_primary_eval:
  "booted_primary =
     (Mix ((new_state 0 ''Mix'')\<lparr>booted := True, listeners := [(''init'', HotRecord)]\<rparr>) [],
      fresh_globals\<lparr>current := [0], primary := Some 0, global_Mix := Some 0,
                     dotenv_loads := 1, next_ident := 1\<rparr>)"
  by (simp add: booted_primary_def fresh_globals_def mix_defs)

text \<open>\<open>whileCurrent\<close> by itself is balanced: on every exit path of a balanced callback the
  stack is back where it was.\<close>

lemma whileCurrent_stack:
  assumes "balanced cb"
  shows "current (settled_globals (whileCurrent cb this g)) = current g"
proof -
  obtain r this' g' where c: "cb this (pushCurrent this g) = (r, this', g')"
    by (cases "cb this (pushCurrent this g)") auto
  have "current (snd (snd (cb this (pushCurrent this g)))) = current (pushCurrent this g)"
    using assms by (simp add: balanced_def keeps_stack_def)
  then have k: "current g' = current g @ [ident (self this)]"
    using c by simp
  show ?thesis
  proof (cases r)
    case (Returned v)
    then show ?thesis using c k by (simp add: whileCurrent_def settled_globals_def)
  next
    case (ReturnedPromise p)
    have "case fst (cb this (pushCurrent this g)) of
            ReturnedPromise p \<Rightarrow> keeps_stack p | Returned v \<Rightarrow> True | Threw e \<Rightarrow> True"
      using assms unfolding balanced_def by blast
    then have "keeps_stack p"
      using c ReturnedPromise by simp
    then have "current (snd (snd (p this' g'))) = current g'"
      by (simp add: keeps_stack_def)
    then show ?thesis
      using c k ReturnedPromise
      by (auto simp: whileCurrent_def settled_globals_def finally_do_def split: prod.splits)
  next
    case (Threw e)
    then show ?thesis using c k by (simp add: whileCurrent_def settled_globals_def)
  qed
qed

lemma boot_fresh:
  "boot (fst (new_Mix nm g)) (snd (new_Mix nm g)) = (ctx, g1) \<Longrightarrow>
     current g1 = current g @ [next_ident g] \<and> ident (self ctx) = next_ident g"
  by (auto simp: boot_def new_Mix_def new_state_def Let_def on_self_def listen_def
           split: if_splits)

text \<open>
  C1 (the code departs from the claim). \<open>withChild\<close> boots the new child before it runs
  the callback, and \<open>boot\<close> pushes the child on the current-context stack without a
  matching pop. So for every balanced callback and on every exit path (a plain return,
  a deferred result that resolves or rejects, once it has settled, and a throw) the
  stack after \<open>withChild\<close> is the stack before it with the child on top: one deeper, not
  the same depth.
\<close>

theorem withChild_leaves_child_on_stack:
  assumes "balanced cb"
  shows "current (settled_globals (withChild nm cb this g)) = current g @ [next_ident g]"
proof -
  obtain ctx g1 where b: "boot (fst (new_Mix (Some nm) g)) (snd (new_Mix (Some nm) g)) = (ctx, g1)"
    by (cases "boot (fst (new_Mix (Some nm) g)) (snd (new_Mix (Some nm) g))") auto
  from boot_fresh [OF b] have g1: "current g1 = current g @ [next_ident g]" by simp
  obtain r ctx' g2 where w: "whileCurrent cb ctx g1 = (r, ctx', g2)"
    by (cases "whileCurrent cb ctx g1") auto
  have s: "current (settled_globals (r, ctx', g2)) = current g1"
    using whileCurrent_stack [OF assms, of ctx g1] w by simp
  have "settled_globals (withChild nm cb this g) = settled_globals (r, ctx', g2)"
    using b w
    by (cases r)
       (auto simp: withChild_def settled_globals_def at_child_def nth_append
             split: prod.splits)
  then show ?thesis using s g1 by simp
qed

theorem withChild_leaves_child_on_stack_witness:
  "balanced throwing_callback \<and>
   current (snd booted_primary) = [0] \<and>
   current (settled_globals
              (withChild ''admin'' throwing_callback (fst booted_primary) (snd booted_primary)))
     = [0, 1]"
  using withChild_leaves_child_on_stack
    [where cb = throwing_callback and nm = "''admin''" and this = "fst booted_primary"
       and g = "snd booted_primary"]
  by (simp add: booted_primary_eval balanced_def keeps_stack_def throwing_callback_def
        fresh_globals_def)

text \<open>The four exit paths at the primary context of a fresh process: the stack is
  \<open>[0]\<close> before the call and \<open>[0, 1]\<close> after it, the child's identity being 1.\<close>

lemma withChild_stack_on_every_exit_path:
  "current (snd booted_primary) = [0] \<and>
   current (settled_globals
      (withChild ''admin'' returning_callback (fst booted_primary) (snd booted_primary))) = [0, 1] \<and>
   current (settled_globals
      (withChild ''admin'' resolving_callback (fst booted_primary) (snd booted_primary))) = [0, 1] \<and>
   current (settled_globals
      (withChild ''admin'' rejecting_callback (fst booted_primary) (snd booted_primary))) = [0, 1] \<and>
   current (settled_globals
      (withChild ''admin'' throwing_callback (fst booted_primary) (snd booted_primary))) = [0, 1] \<and>
   global_Mix (settled_globals
      (withChild ''admin'' returning_callback (fst booted_primary) (snd booted_primary))) = Some 1"
  by (simp add: booted_primary_eval returning_callback_def resolving_callback_def
        rejecting_callback_def throwing_callback_def late_resolution_def late_rejection_def
        fresh_globals_def settled_globals_def mix_defs)

section \<open>What whileCurrent and withChild return\<close>

text \<open>
  C10. When the callback returns a value that is not a Promise, \<open>whileCurrent\<close> returns
  \<open>undefined\<close> whatever the value was, and so does \<open>withChild\<close>, which runs the callback
  on the child it has created and booted. When the callback returns a Promise,
  \<open>whileCurrent\<close> returns that Promise with \<open>popCurrent\<close> attached by \<open>finally\<close>, which
  settles the way the callback's Promise settles, and \<open>withChild\<close> hands the same on.
  A throw of the callback is thrown on.
\<close>

theorem whileCurrent_discards_plain_result:
  "(case callback this (pushCurrent this g) of
      (Returned v, this', g') \<Rightarrow> fst (whileCurrent callback this g) = Returned Undefined
    | (ReturnedPromise p, this', g') \<Rightarrow>
        fst (whileCurrent callback this g) = ReturnedPromise (finally_do p popCurrent)
    | (Threw e, this', g') \<Rightarrow> fst (whileCurrent callback this g) = Threw e) \<and>
   fst (finally_do q popCurrent m x) = fst (q m x) \<and>
   (case new_child nm g of
      (ctx, g1) \<Rightarrow>
        (case callback ctx (pushCurrent ctx g1) of
           (Returned v, ctx', g') \<Rightarrow> fst (withChild nm callback parent g) = Returned Undefined
         | (ReturnedPromise p, ctx', g') \<Rightarrow>
             fst (withChild nm callback parent g)
               = ReturnedPromise (at_child (length (children parent)) ctx' (finally_do p popCurrent))
         | (Threw e, ctx', g') \<Rightarrow> fst (withChild nm callback parent g) = Threw e))"
  by (auto simp: whileCurrent_def withChild_def new_child_def finally_do_def
           split: prod.splits outcome.splits)

theorem whileCurrent_discards_plain_result_witness:
  "fst (returning_callback (fst booted_primary) (pushCurrent (fst booted_primary) (snd booted_primary)))
     = Returned (Num 42) \<and>
   fst (whileCurrent returning_callback (fst booted_primary) (snd booted_primary))
     = Returned Undefined \<and>
   fst (finally_do late_rejection popCurrent (fst booted_primary) (snd booted_primary))
     = Rejected (Error ''late'') \<and>
   fst (withChild ''admin'' returning_callback (fst booted_primary) (snd booted_primary))
     = Returned Undefined"
  using whileCurrent_discards_plain_result
    [where callback = returning_callback and this = "fst booted_primary"
       and g = "snd booted_primary" and q = late_rejection and m = "fst booted_primary"
       and x = "snd booted_primary" and nm = "''admin''" and parent = "fst booted_primary"]
  by (simp add: booted_primary_eval returning_callback_def late_rejection_def fresh_globals_def
        mix_defs)

section \<open>Group.register without a callback\<close>

text \<open>
  C9. Called without a callback, \<open>Group.register\<close> throws at once: nothing is deferred,
  and the parent context (its child list included) and the process-wide state (so no
  context was created, and the stack is untouched) are exactly as before.
\<close>

theorem Group_register_requires_callback:
  "Group_register nm None parent g =
     ((Threw (Error ''A callback must be passed to mix.group()''), None), parent, g)"
  by (simp add: Group_register_def)

theorem Group_register_requires_callback_witness:
  "Group_register ''admin'' None (fst booted_primary) (snd booted_primary) =
     ((Threw (Error ''A callback must be passed to mix.group()''), None),
      fst booted_primary, snd booted_primary)"
  using Group_register_requires_callback
    [where nm = "''admin''" and parent = "fst booted_primary" and g = "snd booted_primary"]
  by simp

section \<open>buildConfigs and build\<close>

lemma buildConfigs_leaves:
  "buildConfigs this = map (\<lambda>m. WebpackConfig_build (self m)) (leaf_contexts this)"
proof (induction this rule: buildConfigs.induct)
  case (1 s cs)
  have "concat (map buildConfigs cs)
          = concat (map (\<lambda>c. map (\<lambda>m. WebpackConfig_build (self m)) (leaf_contexts c)) cs)"
    using 1 by (induction cs) simp_all
  then show ?case
    by (simp add: leaf_contexts_def map_concat filter_concat comp_def)
qed

text \<open>
  C4. \<open>buildConfigs\<close> yields exactly the build operations of the childless contexts
  among the context and its descendants, one for each, in order; a context that has
  children yields nothing for itself, only what its children yield; on a parent of two
  childless children these are the two children's operations.
\<close>

theorem buildConfigs_one_per_leaf:
  "buildConfigs this = map (\<lambda>m. WebpackConfig_build (self m)) (leaf_contexts this) \<and>
   buildConfigs (Mix s (c # cs)) = concat (map buildConfigs (c # cs)) \<and>
   buildConfigs (Mix s [Mix a [], Mix b []]) = [WebpackConfig_build a, WebpackConfig_build b]"
proof (intro conjI)
  show "buildConfigs this = map (\<lambda>m. WebpackConfig_build (self m)) (leaf_contexts this)"
    by (rule buildConfigs_leaves)
  show "buildConfigs (Mix s (c # cs)) = concat (map buildConfigs (c # cs))"
    by simp
  show "buildConfigs (Mix s [Mix a [], Mix b []]) = [WebpackConfig_build a, WebpackConfig_build b]"
    by simp
qed

theorem buildConfigs_one_per_leaf_witness:
  "leaf_contexts family = [Mix (new_state 1 ''site'') [], Mix (new_state 3 ''reports'') []] \<and>
   buildConfigs family
     = [WebpackConfig_build (new_state 1 ''site''), WebpackConfig_build (new_state 3 ''reports'')]"
  using buildConfigs_one_per_leaf
    [where this = family and s = "new_state 0 ''Mix''" and c = "Mix (new_state 1 ''site'') []"
       and cs = "[]" and a = "new_state 1 ''site''" and b = "new_state 3 ''reports''"]
  by (simp add: family_def leaf_contexts_def)

lemma Promise_all_resolved:
  "(\<And>r. r \<in> set rs \<Longrightarrow> \<exists>v. r = Resolved v) \<Longrightarrow> \<exists>vs. Promise_all rs = Resolved (Arr vs)"
proof -
  assume a: "\<And>r. r \<in> set rs \<Longrightarrow> \<exists>v. r = Resolved v"
  then have "\<exists>vs. all_settled rs = Inr vs"
  proof (induction rs)
    case Nil
    then show ?case by simp
  next
    case (Cons r rs)
    then obtain v where "r = Resolved v" by (meson list.set_intros(1))
    moreover obtain vs where "all_settled rs = Inr vs" using Cons by (meson list.set_intros(2))
    ultimately show ?case by simp
  qed
  then show ?thesis by (auto simp: Promise_all_def)
qed

text \<open>
  C8. \<open>build\<close> on a context that has not been booted warns on the console, boots the
  context, and then does what \<open>build\<close> does on the booted context: it joins the
  operations that \<open>buildConfigs\<close> yields for the booted context. The missing boot is no
  failure: when every build operation resolves, so does \<open>build\<close>.
\<close>

theorem build_boots_with_warning:
  assumes "\<not> booted (self this)"
  shows "case boot this (console_warn setup_warning g) of
           (this1, g1) \<Rightarrow>
             build settle_build this g = build settle_build this1 g1 \<and>
             build settle_build this g
               = (Promise_all (map settle_build (buildConfigs this1)), this1, g1) \<and>
             booted (self this1) \<and>
             warnings g1 = warnings g @ [setup_warning] \<and>
             ((\<forall>op. \<exists>v. settle_build op = Resolved v) \<longrightarrow>
                (\<exists>vs. fst (build settle_build this g) = Resolved (Arr vs)))"
proof -
  obtain this1 g1 where b: "boot this (console_warn setup_warning g) = (this1, g1)"
    by (cases "boot this (console_warn setup_warning g)") auto
  have bt: "booted (self this1)" and w: "warnings g1 = warnings g @ [setup_warning]"
    using assms b
    by (auto simp: boot_def Let_def on_self_def pushCurrent_def makeCurrent_def
          console_warn_def listen_def split: if_splits)
  have e: "build settle_build this g
             = (Promise_all (map settle_build (buildConfigs this1)), this1, g1)"
    using assms b by (simp add: build_def)
  have e1: "build settle_build this1 g1
             = (Promise_all (map settle_build (buildConfigs this1)), this1, g1)"
    using bt by (simp add: build_def)
  have r: "(\<forall>op. \<exists>v. settle_build op = Resolved v) \<longrightarrow>
             (\<exists>vs. fst (build settle_build this g) = Resolved (Arr vs))"
  proof
    assume a: "\<forall>op. \<exists>v. settle_build op = Resolved v"
    have "\<exists>vs. Promise_all (map settle_build (buildConfigs this1)) = Resolved (Arr vs)"
      by (rule Promise_all_resolved) (use a in auto)
    then show "\<exists>vs. fst (build settle_build this g) = Resolved (Arr vs)"
      using e by simp
  qed
  show ?thesis using b e e1 bt w r by simp
qed

theorem build_boots_with_warning_witness:
  "\<not> booted (self (Mix (new_state 0 ''Mix'') [])) \<and>
   build (\<lambda>op. Resolved (Str ''configuration'')) (Mix (new_state 0 ''Mix'') []) fresh_globals
     = (Resolved (Arr [Str ''configuration'']),
        Mix ((new_state 0 ''Mix'')\<lparr>booted := True, listeners := [(''init'', HotRecord)]\<rparr>) [],
        fresh_globals\<lparr>current := [0], global_Mix := Some 0, warnings := [setup_warning]\<rparr>)"
  using build_boots_with_warning
    [where this = "Mix (new_state 0 ''Mix'') []" and g = fresh_globals
       and settle_build = "\<lambda>op. Resolved (Str ''configuration'')"]
  by (simp add: build_def console_warn_def Promise_all_def fresh_globals_def mix_defs)

section \<open>init and the dispatch to children\<close>

lemma call_hook_frame:
  "ident (snd (call_hook cid h args s)) = ident s \<and>
   initialized (snd (call_hook cid h args s)) = initialized s \<and>
   booted (snd (call_hook cid h args s)) = booted s"
  by (simp add: call_hook_def emit_def split: option.splits)

lemma run_handler_frame:
  "ident (snd (run_handler h d s)) = ident s \<and>
   initialized (snd (run_handler h d s)) = initialized s \<and>
   booted (snd (run_handler h d s)) = booted s"
proof (cases h)
  case (Init cid)
  then show ?thesis
    by (auto simp: applyBabelConfig_def call_hook_def emit_def listen_def
          split: option.splits prod.splits hook_result.splits)
qed (auto simp: call_hook_def emit_def applyRules_def applyPlugins_def
      split: option.splits prod.splits hook_result.splits)

lemma run_handlers_frame:
  "ident (snd (run_handlers hs d s)) = ident s \<and>
   initialized (snd (run_handlers hs d s)) = initialized s \<and>
   booted (snd (run_handlers hs d s)) = booted s"
proof (induction hs arbitrary: s)
  case Nil
  then show ?case by simp
next
  case (Cons h hs)
  show ?case
    using run_handler_frame [of h d s] Cons.IH [of "snd (run_handler h d s)"]
    by (auto split: prod.splits hook_result.splits)
qed

lemma fire_frame:
  "ident (snd (fire ev d s)) = ident s \<and>
   initialized (snd (fire ev d s)) = initialized s \<and>
   booted (snd (fire ev d s)) = booted s"
  using run_handlers_frame [of "handlers_for ev s" d "emit (Fired ev d) s"]
  by (simp add: fire_def emit_def)

lemma dispatch_unfold:
  "dispatch ev data this g =
     (finally_do (already (fire_result ev data this)) popCurrent, fired ev data this,
      pushCurrent this g)"
  by (simp add: dispatch_def whileCurrent_def as_promise_def fired_def fire_result_def
        split: prod.splits)

lemma dispatch_each_unfold:
  "dispatch_each ev data cs g = (ps, cs', g') \<Longrightarrow>
     ps = map (\<lambda>c. finally_do (already (fire_result ev data c)) popCurrent) cs \<and>
     cs' = map (fired ev data) cs \<and>
     current g' = current g @ map (\<lambda>c. ident (self c)) cs"
proof (induction cs arbitrary: g ps cs' g')
  case Nil
  then show ?case by simp
next
  case (Cons c cs)
  obtain ps1 cs1 g1 where r: "dispatch_each ev data cs (pushCurrent c g) = (ps1, cs1, g1)"
    by (cases "dispatch_each ev data cs (pushCurrent c g)") auto
  from Cons.IH [OF r] Cons.prems r show ?case
    by (auto simp: dispatch_unfold)
qed

lemma current_funpow_popCurrent:
  "current ((popCurrent ^^ n) g) = (butlast ^^ n) (current g)"
  by (induction n arbitrary: g) (simp_all add: popCurrent_def makeCurrent_def Let_def split: list.splits)

lemma funpow_butlast_append: "(butlast ^^ length ys) (xs @ ys) = xs"
proof (induction ys rule: rev_induct)
  case Nil
  then show ?case by simp
next
  case (snoc y ys)
  have b: "butlast (xs @ ys @ [y]) = xs @ ys"
    by (simp add: butlast_append)
  have "(butlast ^^ Suc (length ys)) (xs @ ys @ [y]) = (butlast ^^ length ys) (butlast (xs @ ys @ [y]))"
    by (simp only: funpow_Suc_right comp_def)
  then show ?case using snoc b by simp
qed

lemma await_each_unfold:
  "length cs = length rs \<Longrightarrow>
     await_each (map (\<lambda>r. finally_do (already r) popCurrent) rs) cs g
       = (rs, cs, (popCurrent ^^ length rs) g)"
proof (induction rs arbitrary: cs g)
  case Nil
  then show ?case by simp
next
  case (Cons r rs)
  then obtain c cs0 where cs: "cs = c # cs0" and l: "length cs0 = length rs"
    by (cases cs) auto
  show ?case
    using Cons.IH [OF l, of "popCurrent g"]
    by (simp add: cs finally_do_def already_def funpow_swap1)
qed

lemma dispatchToChildren_unfold:
  "dispatchToChildren ev data this g = (r, this', g') \<Longrightarrow>
     r = Promise_all (map (fire_result ev data) (children this)) \<and>
     this' = Mix (self this) (map (fired ev data) (children this)) \<and>
     current g' = current g"
proof -
  assume a: "dispatchToChildren ev data this g = (r, this', g')"
  obtain ps cs1 g1 where d: "dispatch_each ev data (children this) g = (ps, cs1, g1)"
    by (cases "dispatch_each ev data (children this) g") auto
  from dispatch_each_unfold [OF d]
  have ps: "ps = map (\<lambda>r. finally_do (already r) popCurrent) (map (fire_result ev data) (children this))"
    and cs1: "cs1 = map (fired ev data) (children this)"
    and g1: "current g1 = current g @ map (\<lambda>c. ident (self c)) (children this)"
    by (simp_all add: comp_def)
  have l: "length cs1 = length (map (fire_result ev data) (children this))"
    using cs1 by simp
  have aw: "await_each ps cs1 g1
              = (map (fire_result ev data) (children this), cs1,
                 (popCurrent ^^ length (map (fire_result ev data) (children this))) g1)"
    unfolding ps by (rule await_each_unfold [OF l])
  have "current ((popCurrent ^^ length (map (fire_result ev data) (children this))) g1) = current g"
    using funpow_butlast_append [of "map (\<lambda>c. ident (self c)) (children this)" "current g"]
    by (simp add: current_funpow_popCurrent g1)
  then show ?thesis
    using a d aw cs1 by (auto simp: dispatchToChildren_def)
qed

lemma fired_frame:
  "children (fired ev data c) = children c \<and>
   initialized (self (fired ev data c)) = initialized (self c) \<and>
   ident (self (fired ev data c)) = ident (self c)"
  using fire_frame [of ev "force data" "self c"] by (simp add: fired_def)

lemma pop_push_current: "current (popCurrent (pushCurrent this g)) = current g"
  by (simp add: popCurrent_def pushCurrent_def makeCurrent_def Let_def split: list.splits)

text \<open>
  What \<open>init\<close> does. On an initialized context it does nothing. Otherwise it sets the
  flag and fires \<open>init\<close> on the context's own dispatcher; if that firing fails, the
  failure is the result and no child is touched; if not, \<open>init\<close> is fired once on the
  dispatcher of every direct child, all of them are joined, and the result is the
  first rejection among the children, if any. The firing on a child goes through
  \<open>dispatch\<close>, not through \<open>init\<close>: it neither reaches the child's own children nor sets
  the child's \<open>initialized\<close> flag.
\<close>

lemma init_reaches_direct_children_only:
  "(if initialized (self this) then init this g = (Resolved Undefined, this, g)
    else (case init this g of
            (r, this', g') \<Rightarrow>
              initialized (self this') \<and> current g' = current g \<and>
              self this' = self (fired ''init'' (Value (Obj (ident (self this)))) (mark_initialized this)) \<and>
              (case fire_result ''init'' (Value (Obj (ident (self this)))) (mark_initialized this) of
                 Rejected e \<Rightarrow> r = Rejected e \<and> children this' = children this
               | Resolved v \<Rightarrow>
                   children this'
                     = map (fired ''init'' (Value (Obj (ident (self this))))) (children this) \<and>
                   r = (case Promise_all (map (fire_result ''init'' (Value (Obj (ident (self this)))))
                                            (children this)) of
                          Rejected e \<Rightarrow> Rejected e
                        | Resolved w \<Rightarrow> Resolved Undefined)))) \<and>
   children (fired ev data c) = children c \<and>
   initialized (self (fired ev data c)) = initialized (self c)"
proof -
  let ?d = "Value (Obj (ident (self this)))"
  let ?t1 = "mark_initialized this"
  have t1: "on_self (\<lambda>s. s\<lparr>initialized := True\<rparr>) this = ?t1"
    by (simp add: mark_initialized_def)
  have c1: "children ?t1 = children this" and i1: "initialized (self ?t1)"
    by (simp_all add: mark_initialized_def on_self_def)
  have main: "\<not> initialized (self this) \<Longrightarrow> ?thesis"
  proof -
    assume n: "\<not> initialized (self this)"
    let ?g3 = "popCurrent (pushCurrent ?t1 g)"
    have e: "init this g =
               (case fire_result ''init'' ?d ?t1 of
                  Rejected e \<Rightarrow> (Rejected e, fired ''init'' ?d ?t1, ?g3)
                | Resolved v \<Rightarrow>
                    (case dispatchToChildren ''init'' ?d (fired ''init'' ?d ?t1) ?g3 of
                       (Rejected e, t4, g4) \<Rightarrow> (Rejected e, t4, g4)
                     | (Resolved w, t4, g4) \<Rightarrow> (Resolved Undefined, t4, g4)))"
      using n
      by (simp add: init_def Let_def t1 dispatch_unfold finally_do_def already_def
            split: settled.splits)
    have f1: "children (fired ''init'' ?d ?t1) = children this"
      and f2: "initialized (self (fired ''init'' ?d ?t1))"
      using fired_frame [of "''init''" ?d ?t1] c1 i1 by simp_all
    show ?thesis
    proof (cases "fire_result ''init'' ?d ?t1")
      case (Rejected e)
      then have "init this g = (Rejected e, fired ''init'' ?d ?t1, ?g3)"
        by (simp add: e)
      then show ?thesis
        using n Rejected f1 f2 fired_frame [of ev data c]
        by (simp add: pop_push_current)
    next
      case (Resolved v)
      obtain r4 this4 g4
        where d: "dispatchToChildren ''init'' ?d (fired ''init'' ?d ?t1) ?g3 = (r4, this4, g4)"
        by (cases "dispatchToChildren ''init'' ?d (fired ''init'' ?d ?t1) ?g3") auto
      from dispatchToChildren_unfold [OF d]
      have r4: "r4 = Promise_all (map (fire_result ''init'' ?d) (children this))"
        and t4: "this4 = Mix (self (fired ''init'' ?d ?t1)) (map (fired ''init'' ?d) (children this))"
        and g4: "current g4 = current g"
        using f1 by (simp_all add: pop_push_current)
      have "init this g =
              ((case r4 of Rejected e \<Rightarrow> Rejected e | Resolved w \<Rightarrow> Resolved Undefined),
               this4, g4)"
        using Resolved d by (simp add: e split: settled.splits)
      then show ?thesis
        using n Resolved r4 t4 g4 f2 fired_frame [of ev data c]
        by simp
    qed
  qed
  show ?thesis
  proof (cases "initialized (self this)")
    case True
    then show ?thesis using fired_frame [of ev data c] by (simp add: init_def)
  next
    case False
    then show ?thesis by (rule main)
  qed
qed

lemmas dispatch_defs =
  init_def dispatch_def dispatchToChildren_def whileCurrent_def as_promise_def already_def
  finally_do_def settle_def force_def fire_def handlers_for_def emit_def Promise_all_def
  pushCurrent_def popCurrent_def makeCurrent_def on_self_def new_state_def Let_def


lemma init_family_trace:
  "map (\<lambda>m. ctx_name (self m)) (contexts family) = [''Mix'', ''site'', ''admin'', ''reports''] \<and>
   fst (init family fresh_globals) = Resolved Undefined \<and>
   map (\<lambda>m. trace (self m)) (contexts (fst (snd (init family fresh_globals))))
     = [[Fired ''init'' (Obj 0)], [Fired ''init'' (Obj 0)], [Fired ''init'' (Obj 0)], []]"
  by (simp add: family_def fresh_globals_def dispatch_defs)

lemma nested_groups_eval:
  "snd nested_groups =
     (Mix ((new_state 0 ''Mix'')\<lparr>booted := True, listeners := [(''init'', HotRecord)]\<rparr>)
        [Mix ((new_state 1 ''admin'')\<lparr>booted := True, listeners := [(''init'', HotRecord)]\<rparr>)
           [Mix ((new_state 2 ''reports'')\<lparr>booted := True, listeners := [(''init'', HotRecord)]\<rparr>) []]],
      fresh_globals\<lparr>current := [0, 1, 1], primary := Some 0, global_Mix := Some 1,
                     dotenv_loads := 1, next_ident := 3\<rparr>)"
  by (simp add: nested_groups_def booted_primary_eval returning_callback_def
        fresh_globals_def mix_defs)

lemma init_nested_groups_eval:
  "init (fst (snd nested_groups)) (snd (snd nested_groups)) =
     (Resolved Undefined,
      Mix ((new_state 0 ''Mix'')\<lparr>booted := True, initialized := True,
             listeners := [(''init'', HotRecord)],
             trace := [Fired ''init'' (Obj 0), HotRecorded]\<rparr>)
        [Mix ((new_state 1 ''admin'')\<lparr>booted := True, listeners := [(''init'', HotRecord)],
                trace := [Fired ''init'' (Obj 0), HotRecorded]\<rparr>)
           [Mix ((new_state 2 ''reports'')\<lparr>booted := True, listeners := [(''init'', HotRecord)]\<rparr>) []]],
      snd (snd nested_groups))"
  by (simp add: nested_groups_eval fresh_globals_def dispatch_defs)

text \<open>
  C5 (the code departs from the claim). The claim has \<open>init\<close> reach every descendant at
  every depth. With nested groups (the primary context, its child \<open>admin\<close>, and
  \<open>reports\<close>, made by \<open>withChild\<close> inside the callback of \<open>admin\<close>), \<open>init\<close> on the
  primary context resolves after firing on the primary context and on \<open>admin\<close> only:
  \<open>reports\<close> receives no firing and neither child is marked initialized. \<open>buildConfigs\<close>
  does descend to every depth, so the one configuration that is built is that of
  \<open>reports\<close>, the context that never received \<open>init\<close>.
\<close>

theorem init_skips_nested_context:
  "map (\<lambda>m. ctx_name (self m)) (contexts (fst (snd nested_groups))) = [''Mix'', ''admin'', ''reports''] \<and>
   fst (init (fst (snd nested_groups)) (snd (snd nested_groups))) = Resolved Undefined \<and>
   map (\<lambda>m. trace (self m))
     (contexts (fst (snd (init (fst (snd nested_groups)) (snd (snd nested_groups))))))
     = [[Fired ''init'' (Obj 0), HotRecorded], [Fired ''init'' (Obj 0), HotRecorded], []] \<and>
   map (\<lambda>m. initialized (self m))
     (contexts (fst (snd (init (fst (snd nested_groups)) (snd (snd nested_groups))))))
     = [True, False, False] \<and>
   map described
     (buildConfigs (fst (snd (init (fst (snd nested_groups)) (snd (snd nested_groups))))))
     = [(''reports'', False, [])]"
  unfolding init_nested_groups_eval
  by (simp add: nested_groups_eval described_def new_state_def)


section \<open>What holds of a registrar after any build script\<close>

lemma boot_first_Nil [simp]: "boot_first B []"
  by (simp add: boot_first_def)

lemma boot_first_snoc:
  "boot_first B (t @ [e]) \<longleftrightarrow>
     boot_first B t \<and>
     (\<forall>cid h args. e = HookCall cid h args \<longrightarrow> h \<in> contribution_hooks \<longrightarrow> B cid \<longrightarrow>
        HookCall cid Boot [] \<in> set t)"
proof
  assume a: "boot_first B (t @ [e])"
  have "boot_first B t"
    unfolding boot_first_def
  proof (intro allI impI)
    fix pre cid h args post
    assume "t = pre @ HookCall cid h args # post" "h \<in> contribution_hooks" "B cid"
    then have "t @ [e] = pre @ HookCall cid h args # (post @ [e])" by simp
    with a \<open>h \<in> contribution_hooks\<close> \<open>B cid\<close> show "HookCall cid Boot [] \<in> set pre"
      unfolding boot_first_def by blast
  qed
  moreover have "\<forall>cid h args. e = HookCall cid h args \<longrightarrow> h \<in> contribution_hooks \<longrightarrow> B cid \<longrightarrow>
        HookCall cid Boot [] \<in> set t"
  proof (intro allI impI)
    fix cid h args
    assume "e = HookCall cid h args" "h \<in> contribution_hooks" "B cid"
    then have "t @ [e] = t @ HookCall cid h args # []" by simp
    with a \<open>h \<in> contribution_hooks\<close> \<open>B cid\<close> show "HookCall cid Boot [] \<in> set t"
      unfolding boot_first_def by blast
  qed
  ultimately show "boot_first B t \<and>
     (\<forall>cid h args. e = HookCall cid h args \<longrightarrow> h \<in> contribution_hooks \<longrightarrow> B cid \<longrightarrow>
        HookCall cid Boot [] \<in> set t)" by simp
next
  assume a: "boot_first B t \<and>
     (\<forall>cid h args. e = HookCall cid h args \<longrightarrow> h \<in> contribution_hooks \<longrightarrow> B cid \<longrightarrow>
        HookCall cid Boot [] \<in> set t)"
  show "boot_first B (t @ [e])"
    unfolding boot_first_def
  proof (intro allI impI)
    fix pre cid h args post
    assume eq: "t @ [e] = pre @ HookCall cid h args # post" and h: "h \<in> contribution_hooks" and b: "B cid"
    show "HookCall cid Boot [] \<in> set pre"
    proof (cases post rule: rev_cases)
      case Nil
      with eq have "t = pre" "e = HookCall cid h args" by simp_all
      with a h b show ?thesis by blast
    next
      case (snoc post' x)
      with eq have "t = pre @ HookCall cid h args # post'" by simp
      with a h b show ?thesis unfolding boot_first_def by blast
    qed
  qed
qed

lemma boot_first_cong:
  "(\<And>cid h args. HookCall cid h args \<in> set t \<Longrightarrow> B cid = B' cid) \<Longrightarrow>
     boot_first B t = boot_first B' t"
  unfolding boot_first_def by (metis in_set_conv_decomp)

lemma is_active_emit [simp]: "is_active cid (emit e s) = is_active cid s"
  and has_hook_emit [simp]: "has_hook cid h (emit e s) = has_hook cid h s"
  and is_active_listen [simp]: "is_active cid (listen ev hdl s) = is_active cid s"
  and has_hook_listen [simp]: "has_hook cid h (listen ev hdl s) = has_hook cid h s"
  and is_active_record [simp]: "is_active cid (record_component n i s) = is_active cid s"
  and has_hook_record [simp]: "has_hook cid h (record_component n i s) = has_hook cid h s"
  and is_activated_emit [simp]: "is_activated cid (emit e s) = is_activated cid s"
  and is_activated_listen [simp]: "is_activated cid (listen ev hdl s) = is_activated cid s"
  and is_activated_record [simp]: "is_activated cid (record_component n i s) = is_activated cid s"
  by (simp_all add: is_active_def has_hook_def is_activated_def)

lemma update_caller_props [simp]:
  "is_active cid' (update_component cid (\<lambda>c. c\<lparr>caller := v\<rparr>) s) = is_active cid' s"
  "is_activated cid' (update_component cid (\<lambda>c. c\<lparr>caller := v\<rparr>) s) = is_activated cid' s"
  "has_hook cid' h (update_component cid (\<lambda>c. c\<lparr>caller := v\<rparr>) s) = has_hook cid' h s"
  "(store (update_component cid (\<lambda>c. c\<lparr>caller := v\<rparr>) s) cid' = None) = (store s cid' = None)"
  by (auto simp: update_component_def is_active_def is_activated_def has_hook_def
           split: option.splits)

lemma update_activated_props [simp]:
  "is_active cid' (update_component cid (\<lambda>c. c\<lparr>activated := True\<rparr>) s)
     = (is_active cid' s \<or> (cid' = cid \<and> store s cid \<noteq> None))"
  "is_activated cid' (update_component cid (\<lambda>c. c\<lparr>activated := True\<rparr>) s)
     = (is_activated cid' s \<or> (cid' = cid \<and> store s cid \<noteq> None))"
  "has_hook cid' h (update_component cid (\<lambda>c. c\<lparr>activated := True\<rparr>) s) = has_hook cid' h s"
  "(store (update_component cid (\<lambda>c. c\<lparr>activated := True\<rparr>) s) cid' = None) = (store s cid' = None)"
  by (auto simp: update_component_def is_active_def is_activated_def has_hook_def
           split: option.splits)

lemma inv_emit:
  assumes "registrar_inv s"
    and "\<And>cid h args. e = HookCall cid h args \<Longrightarrow>
           cid < next_component s \<and>
           (h \<noteq> Register \<longrightarrow> is_active cid s) \<and>
           (h = Register \<longrightarrow> cid \<in> snd ` set (ledger s)) \<and>
           (h \<in> contribution_hooks \<longrightarrow> has_hook cid Boot s \<longrightarrow> HookCall cid Boot [] \<in> set (trace s))"
  shows "registrar_inv (emit e s)"
  using assms
  unfolding registrar_inv_def
  by (simp add: boot_first_snoc) blast

lemma inv_listen:
  assumes "registrar_inv s"
    and "\<And>cid. second_order h = Some cid \<Longrightarrow>
           is_active cid s \<and> (has_hook cid Boot s \<longrightarrow> HookCall cid Boot [] \<in> set (trace s))"
  shows "registrar_inv (listen ev h s)"
  using assms
  unfolding registrar_inv_def
  by simp

lemma inv_record:
  "registrar_inv s \<Longrightarrow> registrar_inv (record_component n cid s)"
  unfolding registrar_inv_def
  by simp

lemma inv_components [simp]:
  "registrar_inv (s\<lparr>components := m\<rparr>) = registrar_inv s"
  by (simp add: registrar_inv_def is_active_def has_hook_def is_activated_def)

lemma inv_write_api [simp]:
  "registrar_inv (write_api cid s) = registrar_inv s"
  by (simp add: write_api_def split: option.splits)

lemma inv_update_caller:
  "registrar_inv s \<Longrightarrow> registrar_inv (update_component cid (\<lambda>c. c\<lparr>caller := v\<rparr>) s)"
  unfolding registrar_inv_def
  by simp

lemma inv_update_activated:
  "registrar_inv s \<Longrightarrow> cid \<in> snd ` set (ledger s) \<Longrightarrow>
     registrar_inv (update_component cid (\<lambda>c. c\<lparr>activated := True\<rparr>) s)"
  unfolding registrar_inv_def
  by simp

lemma allocate_props:
  "is_active cid (allocate k s) = (if cid = next_component s then is_passive k else is_active cid s)"
  "is_activated cid (allocate k s) = (cid \<noteq> next_component s \<and> is_activated cid s)"
  "has_hook cid h (allocate k s) = (if cid = next_component s then hooks k h \<noteq> None else has_hook cid h s)"
  "(store (allocate k s) cid = None) = (cid \<noteq> next_component s \<and> store s cid = None)"
  "trace (allocate k s) = trace s" "ledger (allocate k s) = ledger s"
  "listeners (allocate k s) = listeners s" "next_component (allocate k s) = Suc (next_component s)"
  by (auto simp: allocate_def is_active_def is_activated_def has_hook_def new_component_def)

lemma is_active_exists: "is_active cid s \<Longrightarrow> store s cid \<noteq> None"
  by (auto simp: is_active_def split: option.splits)

lemma registrar_invD:
  assumes "registrar_inv s"
  shows "next_component s \<le> cid \<Longrightarrow> store s cid = None"
    and "HookCall cid h args \<in> set (trace s) \<Longrightarrow> cid < next_component s"
    and "is_activated cid s \<Longrightarrow> cid \<in> snd ` set (ledger s)"
    and "HookCall cid h args \<in> set (trace s) \<Longrightarrow> h \<noteq> Register \<Longrightarrow> is_active cid s"
    and "HookCall cid Register args \<in> set (trace s) \<Longrightarrow> cid \<in> snd ` set (ledger s)"
    and "(ev, hdl) \<in> set (listeners s) \<Longrightarrow> second_order hdl = Some cid \<Longrightarrow> is_active cid s"
    and "(ev, hdl) \<in> set (listeners s) \<Longrightarrow> second_order hdl = Some cid \<Longrightarrow>
           has_hook cid Boot s \<Longrightarrow> HookCall cid Boot [] \<in> set (trace s)"
    and "boot_first (\<lambda>cid. has_hook cid Boot s) (trace s)"
  using assms unfolding registrar_inv_def by blast+

lemma registrar_invI:
  assumes "\<And>cid. next_component s \<le> cid \<Longrightarrow> store s cid = None"
    and "\<And>cid h args. HookCall cid h args \<in> set (trace s) \<Longrightarrow> cid < next_component s"
    and "\<And>cid. is_activated cid s \<Longrightarrow> cid \<in> snd ` set (ledger s)"
    and "\<And>cid h args. HookCall cid h args \<in> set (trace s) \<Longrightarrow> h \<noteq> Register \<Longrightarrow> is_active cid s"
    and "\<And>cid args. HookCall cid Register args \<in> set (trace s) \<Longrightarrow> cid \<in> snd ` set (ledger s)"
    and "\<And>ev hdl cid. (ev, hdl) \<in> set (listeners s) \<Longrightarrow> second_order hdl = Some cid \<Longrightarrow> is_active cid s"
    and "\<And>ev hdl cid. (ev, hdl) \<in> set (listeners s) \<Longrightarrow> second_order hdl = Some cid \<Longrightarrow>
           has_hook cid Boot s \<Longrightarrow> HookCall cid Boot [] \<in> set (trace s)"
    and "boot_first (\<lambda>cid. has_hook cid Boot s) (trace s)"
  shows "registrar_inv s"
  using assms unfolding registrar_inv_def by blast

lemma inv_allocate:
  assumes inv: "registrar_inv s"
  shows "registrar_inv (allocate k s)"
proof -
  let ?n = "next_component s"
  note D = registrar_invD [OF inv]
  have old: "\<And>cid. store s cid \<noteq> None \<Longrightarrow> cid < ?n"
    using D(1) by (meson not_le_imp_less)
  have act: "\<And>cid. is_active cid s \<Longrightarrow> cid \<noteq> ?n"
    using old is_active_exists by blast
  have bf: "boot_first (\<lambda>cid. has_hook cid Boot (allocate k s)) (trace s)
              = boot_first (\<lambda>cid. has_hook cid Boot s) (trace s)"
    by (rule boot_first_cong) (use D(2) in \<open>auto simp: allocate_props\<close>)
  show ?thesis
  proof (rule registrar_invI)
    fix cid
    assume "next_component (allocate k s) \<le> cid"
    then show "store (allocate k s) cid = None"
      using D(1) [of cid] by (simp add: allocate_props)
  next
    fix cid h args
    assume "HookCall cid h args \<in> set (trace (allocate k s))"
    then show "cid < next_component (allocate k s)"
      using D(2) [of cid h args] by (simp add: allocate_props)
  next
    fix cid
    assume "is_activated cid (allocate k s)"
    then show "cid \<in> snd ` set (ledger (allocate k s))"
      using D(3) [of cid] by (simp add: allocate_props)
  next
    fix cid h args
    assume "HookCall cid h args \<in> set (trace (allocate k s))" "h \<noteq> Register"
    then show "is_active cid (allocate k s)"
      using D(4) [of cid h args] act [of cid] by (simp add: allocate_props)
  next
    fix cid args
    assume "HookCall cid Register args \<in> set (trace (allocate k s))"
    then show "cid \<in> snd ` set (ledger (allocate k s))"
      using D(5) [of cid args] by (simp add: allocate_props)
  next
    fix ev hdl cid
    assume "(ev, hdl) \<in> set (listeners (allocate k s))" "second_order hdl = Some cid"
    then show "is_active cid (allocate k s)"
      using D(6) [of ev hdl cid] act [of cid] by (simp add: allocate_props)
  next
    fix ev hdl cid
    assume a: "(ev, hdl) \<in> set (listeners (allocate k s))" "second_order hdl = Some cid"
      "has_hook cid Boot (allocate k s)"
    then have "is_active cid s" using D(6) [of ev hdl cid] by (simp add: allocate_props)
    then have "cid \<noteq> ?n" by (rule act)
    then show "HookCall cid Boot [] \<in> set (trace (allocate k s))"
      using a D(7) [of ev hdl cid] by (simp add: allocate_props)
  next
    show "boot_first (\<lambda>cid. has_hook cid Boot (allocate k s)) (trace (allocate k s))"
      using D(8) bf by (simp add: allocate_props)
  qed
qed

lemma call_hook_eq:
  "snd (call_hook cid h args s) = (if has_hook cid h s then emit (HookCall cid h args) s else s)"
  by (simp add: call_hook_def has_hook_def split: option.splits)

lemma has_hook_exists: "has_hook cid h s \<Longrightarrow> store s cid \<noteq> None"
  by (auto simp: has_hook_def split: option.splits)

lemma inv_call_hook:
  assumes inv: "registrar_inv s"
    and "h \<noteq> Register \<Longrightarrow> is_active cid s"
    and "h = Register \<Longrightarrow> cid \<in> snd ` set (ledger s)"
    and "h \<in> contribution_hooks \<Longrightarrow> has_hook cid Boot s \<Longrightarrow> HookCall cid Boot [] \<in> set (trace s)"
  shows "registrar_inv (snd (call_hook cid h args s))"
proof (cases "has_hook cid h s")
  case True
  then have "cid < next_component s"
    using registrar_invD(1) [OF inv, of cid] has_hook_exists [of cid h s]
    by (meson not_le_imp_less)
  then have "registrar_inv (emit (HookCall cid h args) s)"
    using assms by (intro inv_emit) auto
  then show ?thesis using True by (simp add: call_hook_eq)
next
  case False
  then show ?thesis using inv by (simp add: call_hook_eq)
qed

lemma verb_callable_state:
  "snd (verb_callable cid n args s) =
     (let s2 = update_component cid (\<lambda>c. c\<lparr>caller := Some n\<rparr>) (record_component n cid s);
          s3 = snd (call_hook cid Register args s2)
      in if fst (call_hook cid Register args s2) = Returns
         then update_component cid (\<lambda>c. c\<lparr>activated := True\<rparr>) s3 else s3)"
  by (simp add: verb_callable_def Let_def split: prod.splits hook_result.splits)

lemma inv_verb_callable:
  assumes "registrar_inv s"
  shows "registrar_inv (snd (verb_callable cid n args s))"
proof -
  let ?s2 = "update_component cid (\<lambda>c. c\<lparr>caller := Some n\<rparr>) (record_component n cid s)"
  let ?s3 = "snd (call_hook cid Register args ?s2)"
  have i2: "registrar_inv ?s2"
    using assms by (intro inv_update_caller inv_record)
  have l2: "cid \<in> snd ` set (ledger ?s2)" by (simp add: image_iff)
  have i3: "registrar_inv ?s3"
    using i2 l2 by (intro inv_call_hook) (auto simp: contribution_hooks_def)
  have l3: "cid \<in> snd ` set (ledger ?s3)"
    by (simp add: call_hook_eq image_iff)
  have "registrar_inv (update_component cid (\<lambda>c. c\<lparr>activated := True\<rparr>) ?s3)"
    using i3 l3 by (rule inv_update_activated)
  then show ?thesis using i3 by (simp add: verb_callable_state Let_def)
qed

lemma inv_register_name:
  assumes "registrar_inv s"
  shows "registrar_inv (snd (register_name cid n s))"
proof -
  let ?s1 = "s\<lparr>components := (components s)(n \<mapsto> Verb cid n)\<rparr>"
  have "registrar_inv ?s1" using assms by simp
  then have "registrar_inv (snd (verb_callable cid n [] ?s1))"
    by (rule inv_verb_callable)
  then show ?thesis
    using assms
    by (auto simp: register_name_def Let_def split: option.splits prod.splits hook_result.splits)
qed

lemma inv_register_names:
  "registrar_inv s \<Longrightarrow> registrar_inv (snd (register_names cid ns s))"
proof (induction ns arbitrary: s)
  case Nil
  then show ?case by simp
next
  case (Cons n ns)
  have "registrar_inv (snd (register_name cid n s))"
    using Cons.prems by (rule inv_register_name)
  then show ?case
    using Cons.IH [of "snd (register_name cid n s)"]
    by (auto split: prod.splits hook_result.splits)
qed

lemma inv_install:
  assumes "registrar_inv s"
  shows "registrar_inv (snd (install k s))"
proof -
  let ?cid = "next_component s"
  have a: "registrar_inv (allocate k s)" using assms by (rule inv_allocate)
  then have r: "registrar_inv (snd (registerComponent ?cid (allocate k s)))"
    by (auto simp: registerComponent_def inv_register_names split: option.splits)
  have "registrar_inv
          (listen ''init'' (Init ?cid)
             (listen ''internal:gather-dependencies'' (GatherDependencies ?cid)
                (snd (registerComponent ?cid (allocate k s)))))"
    using r by (intro inv_listen) simp_all
  then show ?thesis
    using r
    by (auto simp: install_def Let_def split: prod.splits hook_result.splits)
qed

lemma call_hook_frame2:
  "store (snd (call_hook cid h args s)) = store s"
  "set (trace s) \<subseteq> set (trace (snd (call_hook cid h args s)))"
  by (auto simp: call_hook_eq)

lemma call_hook_props [simp]:
  "is_active cid' (snd (call_hook cid h args s)) = is_active cid' s"
  "has_hook cid' h' (snd (call_hook cid h args s)) = has_hook cid' h' s"
  by (simp_all add: call_hook_eq)

lemma applyBabelConfig_state:
  "snd (applyBabelConfig cid s) =
     (if fst (call_hook cid BabelConfig [] s) = Returns
      then emit (BabelMerged cid) (snd (call_hook cid BabelConfig [] s))
      else snd (call_hook cid BabelConfig [] s))"
  by (simp add: applyBabelConfig_def split: prod.splits hook_result.splits)

lemma run_handler_store:
  "store (snd (run_handler hdl d s)) = store s \<and>
   set (trace s) \<subseteq> set (trace (snd (run_handler hdl d s)))"
proof (cases hdl)
  case (Init cid)
  then show ?thesis
    by (auto simp: applyBabelConfig_state call_hook_eq case_prod_unfold
          split: hook_result.splits if_splits)
qed (auto simp: call_hook_eq case_prod_unfold applyRules_def applyPlugins_def
      split: hook_result.splits if_splits)

lemma armed_run_handler:
  "armed h' s \<Longrightarrow> armed h' (snd (run_handler hdl d s))"
  using run_handler_store [of hdl d s]
  by (auto simp: armed_def is_active_def has_hook_def)

lemma inv_run_handler:
  assumes inv: "registrar_inv s" and arm: "armed hdl s"
  shows "registrar_inv (snd (run_handler hdl d s))"
proof (cases hdl)
  case (GatherDependencies cid)
  show ?thesis
  proof (cases "is_active cid s \<and> has_hook cid Dependencies s")
    case True
    have i1: "registrar_inv (snd (call_hook cid Dependencies [] s))"
      using inv True by (intro inv_call_hook) (auto simp: contribution_hooks_def)
    then have "registrar_inv (emit (Queued cid b) (snd (call_hook cid Dependencies [] s)))" for b
      by (intro inv_emit) auto
    then show ?thesis
      using GatherDependencies True i1
      by (auto simp: case_prod_unfold split: hook_result.splits)
  next
    case False
    then show ?thesis using GatherDependencies inv by auto
  qed
next
  case (Init cid)
  show ?thesis
  proof (cases "is_active cid s")
    case False
    then show ?thesis using Init inv by simp
  next
    case True
    let ?s1 = "snd (call_hook cid Boot [] s)"
    let ?s2 = "if has_hook cid BabelConfig ?s1 then snd (applyBabelConfig cid ?s1) else ?s1"
    have i1: "registrar_inv ?s1"
      using inv True by (intro inv_call_hook) (auto simp: contribution_hooks_def)
    have ib: "registrar_inv (snd (call_hook cid BabelConfig [] ?s1))"
      by (rule inv_call_hook [OF i1]) (use True in \<open>auto simp: contribution_hooks_def\<close>)
    then have "registrar_inv (emit (BabelMerged cid) (snd (call_hook cid BabelConfig [] ?s1)))"
      by (intro inv_emit) auto
    then have i2: "registrar_inv ?s2"
      using i1 ib by (simp add: applyBabelConfig_state)
    have a2: "is_active cid ?s2"
      using True by (simp add: applyBabelConfig_state)
    have b1: "has_hook cid Boot s \<Longrightarrow> HookCall cid Boot [] \<in> set (trace ?s1)"
      by (simp add: call_hook_eq)
    have b2: "has_hook cid Boot ?s2 \<Longrightarrow> HookCall cid Boot [] \<in> set (trace ?s2)"
      using b1 by (auto simp: applyBabelConfig_state call_hook_eq split: if_splits)
    have "registrar_inv
            (listen ''configReady'' (ConfigReady cid)
              (listen ''loading-plugins'' (LoadingPlugins cid)
                (listen ''loading-rules'' (LoadingRules cid)
                  (listen ''loading-entry'' (LoadingEntry cid) ?s2))))"
      using i2 a2 b2 by (intro inv_listen) simp_all
    then show ?thesis
      using Init True i1 i2
      by (auto simp: case_prod_unfold split: hook_result.splits if_splits)
  qed
next
  case (LoadingEntry cid)
  then show ?thesis
    using inv arm by (auto simp: armed_def intro!: inv_call_hook)
next
  case (LoadingRules cid)
  then show ?thesis
    using inv arm by (auto simp: armed_def applyRules_def intro!: inv_call_hook)
next
  case (LoadingPlugins cid)
  then show ?thesis
    using inv arm by (auto simp: armed_def applyPlugins_def intro!: inv_call_hook)
next
  case (ConfigReady cid)
  then show ?thesis
    using inv arm by (auto simp: armed_def intro!: inv_call_hook)
next
  case HotRecord
  then show ?thesis using inv by (auto intro!: inv_emit)
qed

lemma inv_run_handlers:
  "registrar_inv s \<Longrightarrow> (\<And>hdl. hdl \<in> set hs \<Longrightarrow> armed hdl s) \<Longrightarrow>
     registrar_inv (snd (run_handlers hs d s))"
proof (induction hs arbitrary: s)
  case Nil
  then show ?case by simp
next
  case (Cons h hs)
  have i: "registrar_inv (snd (run_handler h d s))"
    using Cons.prems by (intro inv_run_handler) simp_all
  have a: "\<And>hdl. hdl \<in> set hs \<Longrightarrow> armed hdl (snd (run_handler h d s))"
    using Cons.prems(2) by (intro armed_run_handler) simp
  show ?case
    using i Cons.IH [OF i a]
    by (auto simp: case_prod_unfold split: hook_result.splits)
qed

lemma inv_fire:
  assumes inv: "registrar_inv s"
  shows "registrar_inv (snd (fire ev d s))"
proof -
  let ?s1 = "emit (Fired ev d) s"
  have i1: "registrar_inv ?s1" using inv by (intro inv_emit) auto
  have "armed hdl ?s1" if "hdl \<in> set (handlers_for ev s)" for hdl
  proof -
    from that obtain e where "(e, hdl) \<in> set (listeners s)"
      by (auto simp: handlers_for_def)
    then show ?thesis
      using registrar_invD(6,7) [OF inv, of e hdl]
      by (auto simp: armed_def)
  qed
  moreover have "handlers_for ev ?s1 = handlers_for ev s"
    by (simp add: handlers_for_def)
  ultimately show ?thesis
    using i1 by (simp add: fire_def inv_run_handlers)
qed

lemma inv_invoke:
  "registrar_inv s \<Longrightarrow> registrar_inv (snd (invoke name args s))"
  by (auto simp: invoke_def inv_verb_callable intro!: inv_emit
           split: option.splits callable.splits)

lemma inv_perform:
  "registrar_inv s \<Longrightarrow> registrar_inv (snd (perform a s))"
  by (cases a) (simp_all add: inv_install inv_invoke inv_fire)

lemma inv_run:
  "registrar_inv s \<Longrightarrow> registrar_inv (run acts s)"
  unfolding run_def
  by (induction acts arbitrary: s) (simp_all add: inv_perform)

lemma inv_new_state: "registrar_inv (new_state i nm)"
  by (simp add: registrar_inv_def new_state_def is_activated_def)

text \<open>
  C2. Whatever a build script does (installs, verb invocations, firings of any events,
  any number of times, in any order): a component that is not passive and whose
  activated flag is not set has had no hook but \<open>register\<close> called (so none of
  dependencies, boot, babelConfig, webpackEntry, webpackRules, webpackPlugins,
  webpackConfig); and if no verb callable of it has ever been invoked (it has no
  ledger entry), then its activated flag is not set and no hook of it at all has been
  called.
\<close>

theorem inactive_component_hooks_never_run:
  assumes "store (run acts (new_state i nm)) cid = Some c"
    and "\<not> is_passive (cls c)"
  shows "(\<not> activated c \<longrightarrow> h \<noteq> Register \<longrightarrow>
            HookCall cid h args \<notin> set (trace (run acts (new_state i nm)))) \<and>
         (cid \<notin> snd ` set (ledger (run acts (new_state i nm))) \<longrightarrow>
            \<not> activated c \<and> HookCall cid h args \<notin> set (trace (run acts (new_state i nm))))"
proof -
  let ?s = "run acts (new_state i nm)"
  have inv: "registrar_inv ?s" by (intro inv_run inv_new_state)
  note D = registrar_invD [OF inv]
  have a: "\<not> activated c \<Longrightarrow> \<not> is_active cid ?s"
    using assms by (simp add: is_active_def)
  have b: "cid \<notin> snd ` set (ledger ?s) \<Longrightarrow> \<not> activated c"
    using D(3) [of cid] assms(1) by (auto simp: is_activated_def)
  show ?thesis
    using a b D(4) [of cid h args] D(5) [of cid args]
    by (cases "h = Register") auto
qed

subsection \<open>Contribution hooks come after init\<close>

lemma init_fired_append [simp]: "init_fired (t @ u) \<longleftrightarrow> init_fired t \<or> init_fired u"
  by (auto simp: init_fired_def)

lemma init_fired_single [simp]: "init_fired [e] \<longleftrightarrow> (\<exists>d. e = Fired ''init'' d)"
  by (auto simp: init_fired_def)

lemma init_first_Nil [simp]: "init_first []"
  by (simp add: init_first_def)

lemma init_first_snoc:
  "init_first (t @ [e]) \<longleftrightarrow>
     init_first t \<and>
     (\<forall>cid h args. e = HookCall cid h args \<longrightarrow> h \<in> contribution_hooks \<longrightarrow> init_fired t)"
proof
  assume a: "init_first (t @ [e])"
  have "init_first t"
    unfolding init_first_def
  proof (intro allI impI)
    fix pre cid h args post
    assume "t = pre @ HookCall cid h args # post" "h \<in> contribution_hooks"
    then have "t @ [e] = pre @ HookCall cid h args # (post @ [e])" by simp
    with a \<open>h \<in> contribution_hooks\<close> show "init_fired pre"
      unfolding init_first_def by blast
  qed
  moreover have "\<forall>cid h args. e = HookCall cid h args \<longrightarrow> h \<in> contribution_hooks \<longrightarrow> init_fired t"
  proof (intro allI impI)
    fix cid h args
    assume "e = HookCall cid h args" "h \<in> contribution_hooks"
    then have "t @ [e] = t @ HookCall cid h args # []" by simp
    with a \<open>h \<in> contribution_hooks\<close> show "init_fired t"
      unfolding init_first_def by blast
  qed
  ultimately show "init_first t \<and>
     (\<forall>cid h args. e = HookCall cid h args \<longrightarrow> h \<in> contribution_hooks \<longrightarrow> init_fired t)"
    by simp
next
  assume a: "init_first t \<and>
     (\<forall>cid h args. e = HookCall cid h args \<longrightarrow> h \<in> contribution_hooks \<longrightarrow> init_fired t)"
  show "init_first (t @ [e])"
    unfolding init_first_def
  proof (intro allI impI)
    fix pre cid h args post
    assume eq: "t @ [e] = pre @ HookCall cid h args # post" and h: "h \<in> contribution_hooks"
    show "init_fired pre"
    proof (cases post rule: rev_cases)
      case Nil
      with eq have "t = pre" "e = HookCall cid h args" by simp_all
      with a h show ?thesis by blast
    next
      case (snoc post' x)
      with eq have "t = pre @ HookCall cid h args # post'" by simp
      with a h show ?thesis unfolding init_first_def by blast
    qed
  qed
qed

lemma init_inv_cong:
  "listeners s' = listeners s \<Longrightarrow> trace s' = trace s \<Longrightarrow> init_inv s' = init_inv s"
  by (simp add: init_inv_def)

lemma init_inv_emit:
  assumes "init_inv s"
    and "\<And>cid h args. e = HookCall cid h args \<Longrightarrow> h \<in> contribution_hooks \<Longrightarrow> init_fired (trace s)"
  shows "init_inv (emit e s)"
  using assms unfolding init_inv_def
  by (auto simp: init_first_snoc)

lemma init_inv_listen:
  assumes "init_inv s"
    and "is_init_listener h \<Longrightarrow> ev = ''init''"
    and "second_order h \<noteq> None \<Longrightarrow> init_fired (trace s)"
  shows "init_inv (listen ev h s)"
  using assms unfolding init_inv_def
  by auto

lemma init_inv_call_hook:
  assumes "init_inv s" and "h \<in> contribution_hooks \<Longrightarrow> init_fired (trace s)"
  shows "init_inv (snd (call_hook cid h args s))"
  using assms by (auto simp: call_hook_eq intro!: init_inv_emit)

lemma verb_callable_listeners:
  "listeners (snd (verb_callable cid n args s)) = listeners s"
  by (simp add: verb_callable_state Let_def call_hook_eq)

lemma init_inv_verb_callable:
  assumes "init_inv s"
  shows "init_inv (snd (verb_callable cid n args s))"
proof -
  let ?s2 = "update_component cid (\<lambda>c. c\<lparr>caller := Some n\<rparr>) (record_component n cid s)"
  have "init_inv ?s2" using assms by (simp add: init_inv_cong [of ?s2 s])
  then have i3: "init_inv (snd (call_hook cid Register args ?s2))"
    by (rule init_inv_call_hook) (simp add: contribution_hooks_def)
  then have "init_inv (update_component cid (\<lambda>c. c\<lparr>activated := True\<rparr>)
                         (snd (call_hook cid Register args ?s2)))"
    by (simp add: init_inv_cong [of "update_component cid (\<lambda>c. c\<lparr>activated := True\<rparr>)
                         (snd (call_hook cid Register args ?s2))" "snd (call_hook cid Register args ?s2)"])
  then show ?thesis using i3 by (simp add: verb_callable_state Let_def)
qed

lemma register_name_listeners:
  "listeners (snd (register_name cid n s)) = listeners s"
  using verb_callable_listeners [of cid n "[]" "s\<lparr>components := (components s)(n \<mapsto> Verb cid n)\<rparr>"]
  by (auto simp: register_name_def Let_def case_prod_unfold
           split: option.splits hook_result.splits)

lemma init_inv_register_name:
  assumes "init_inv s"
  shows "init_inv (snd (register_name cid n s))"
proof -
  let ?s1 = "s\<lparr>components := (components s)(n \<mapsto> Verb cid n)\<rparr>"
  have i1: "init_inv ?s1" using assms by (simp add: init_inv_cong [of ?s1 s])
  then have iv: "init_inv (snd (verb_callable cid n [] ?s1))"
    by (rule init_inv_verb_callable)
  have w: "init_inv (write_api cid t) = init_inv t" for t
    by (rule init_inv_cong) simp_all
  show ?thesis
    using i1 iv
    by (auto simp: register_name_def Let_def case_prod_unfold w
             split: option.splits hook_result.splits)
qed

lemma register_names_listeners:
  "listeners (snd (register_names cid ns s)) = listeners s"
proof (induction ns arbitrary: s)
  case Nil
  then show ?case by simp
next
  case (Cons n ns)
  show ?case
    using register_name_listeners [of cid n s] Cons.IH [of "snd (register_name cid n s)"]
    by (auto simp: case_prod_unfold split: hook_result.splits)
qed

lemma init_inv_register_names:
  "init_inv s \<Longrightarrow> init_inv (snd (register_names cid ns s))"
proof (induction ns arbitrary: s)
  case Nil
  then show ?case by simp
next
  case (Cons n ns)
  have "init_inv (snd (register_name cid n s))"
    using Cons.prems by (rule init_inv_register_name)
  then show ?case
    using Cons.IH [of "snd (register_name cid n s)"]
    by (auto simp: case_prod_unfold split: hook_result.splits)
qed

lemma registerComponent_listeners:
  "listeners (snd (registerComponent cid s)) = listeners s"
  by (simp add: registerComponent_def register_names_listeners split: option.splits)

lemma init_inv_install:
  assumes "init_inv s"
  shows "init_inv (snd (install k s))"
proof -
  let ?cid = "next_component s"
  have "init_inv (allocate k s) = init_inv s"
    by (rule init_inv_cong) (simp_all add: allocate_def)
  then have a: "init_inv (allocate k s)"
    using assms by simp
  then have r: "init_inv (snd (registerComponent ?cid (allocate k s)))"
    by (auto simp: registerComponent_def init_inv_register_names split: option.splits)
  have "init_inv
          (listen ''init'' (Init ?cid)
             (listen ''internal:gather-dependencies'' (GatherDependencies ?cid)
                (snd (registerComponent ?cid (allocate k s)))))"
    using r by (intro init_inv_listen) simp_all
  then show ?thesis
    using r
    by (auto simp: install_def Let_def case_prod_unfold split: hook_result.splits)
qed

lemma install_second_order_listeners:
  "second_order_listeners (snd (install k s)) = second_order_listeners s"
  by (auto simp: install_def Let_def case_prod_unfold second_order_listeners_def
        registerComponent_listeners allocate_def
      split: hook_result.splits)

lemma after_init_run_handler:
  "after_init h' s \<Longrightarrow> after_init h' (snd (run_handler hdl d s))"
  using run_handler_store [of hdl d s]
  by (auto simp: after_init_def init_fired_def)

lemma init_inv_run_handler:
  assumes inv: "init_inv s" and ai: "after_init hdl s"
  shows "init_inv (snd (run_handler hdl d s))"
proof (cases hdl)
  case (GatherDependencies cid)
  have i1: "init_inv (snd (call_hook cid Dependencies [] s))"
    using inv by (rule init_inv_call_hook) (simp add: contribution_hooks_def)
  then have "init_inv (emit (Queued cid b) (snd (call_hook cid Dependencies [] s)))" for b
    by (rule init_inv_emit) simp
  then show ?thesis
    using GatherDependencies inv i1
    by (auto simp: case_prod_unfold split: hook_result.splits)
next
  case (Init cid)
  have f: "init_fired (trace s)" using ai Init by (simp add: after_init_def)
  let ?s1 = "snd (call_hook cid Boot [] s)"
  let ?s2 = "if has_hook cid BabelConfig ?s1 then snd (applyBabelConfig cid ?s1) else ?s1"
  have i1: "init_inv ?s1"
    using inv by (rule init_inv_call_hook) (simp add: contribution_hooks_def)
  have ib: "init_inv (snd (call_hook cid BabelConfig [] ?s1))"
    by (rule init_inv_call_hook [OF i1]) (simp add: contribution_hooks_def)
  then have "init_inv (emit (BabelMerged cid) (snd (call_hook cid BabelConfig [] ?s1)))"
    by (rule init_inv_emit) simp
  then have i2: "init_inv ?s2"
    using i1 ib by (simp add: applyBabelConfig_state)
  have f2: "init_fired (trace ?s2)"
    using f by (auto simp: applyBabelConfig_state call_hook_eq)
  have "init_inv
          (listen ''configReady'' (ConfigReady cid)
            (listen ''loading-plugins'' (LoadingPlugins cid)
              (listen ''loading-rules'' (LoadingRules cid)
                (listen ''loading-entry'' (LoadingEntry cid) ?s2))))"
    using i2 f2 by (intro init_inv_listen) simp_all
  then show ?thesis
    using Init inv i1 i2
    by (auto simp: case_prod_unfold split: hook_result.splits if_splits)
next
  case (LoadingEntry cid)
  then show ?thesis
    using inv ai by (auto simp: after_init_def intro!: init_inv_call_hook)
next
  case (LoadingRules cid)
  then show ?thesis
    using inv ai by (auto simp: after_init_def applyRules_def intro!: init_inv_call_hook)
next
  case (LoadingPlugins cid)
  then show ?thesis
    using inv ai by (auto simp: after_init_def applyPlugins_def intro!: init_inv_call_hook)
next
  case (ConfigReady cid)
  then show ?thesis
    using inv ai by (auto simp: after_init_def intro!: init_inv_call_hook)
next
  case HotRecord
  then show ?thesis using inv by (auto intro!: init_inv_emit)
qed

lemma init_inv_run_handlers:
  "init_inv s \<Longrightarrow> (\<And>hdl. hdl \<in> set hs \<Longrightarrow> after_init hdl s) \<Longrightarrow>
     init_inv (snd (run_handlers hs d s))"
proof (induction hs arbitrary: s)
  case Nil
  then show ?case by simp
next
  case (Cons h hs)
  have i: "init_inv (snd (run_handler h d s))"
    using Cons.prems by (intro init_inv_run_handler) simp_all
  have a: "\<And>hdl. hdl \<in> set hs \<Longrightarrow> after_init hdl (snd (run_handler h d s))"
    using Cons.prems(2) by (intro after_init_run_handler) simp
  show ?case
    using i Cons.IH [OF i a]
    by (auto simp: case_prod_unfold split: hook_result.splits)
qed

lemma init_inv_fire:
  assumes inv: "init_inv s"
  shows "init_inv (snd (fire ev d s))"
proof -
  let ?s1 = "emit (Fired ev d) s"
  have i1: "init_inv ?s1" using inv by (rule init_inv_emit) simp
  have "after_init hdl ?s1" if "hdl \<in> set (handlers_for ev s)" for hdl
  proof -
    from that have m: "(ev, hdl) \<in> set (listeners s)"
      by (auto simp: handlers_for_def)
    show ?thesis
      using inv m unfolding init_inv_def after_init_def
      by auto
  qed
  moreover have "handlers_for ev ?s1 = handlers_for ev s"
    by (simp add: handlers_for_def)
  ultimately show ?thesis
    using i1 by (simp add: fire_def init_inv_run_handlers)
qed

lemma init_inv_invoke:
  "init_inv s \<Longrightarrow> init_inv (snd (invoke name args s))"
  by (auto simp: invoke_def init_inv_verb_callable intro!: init_inv_emit
           split: option.splits callable.splits)

lemma init_inv_perform:
  "init_inv s \<Longrightarrow> init_inv (snd (perform a s))"
  by (cases a) (simp_all add: init_inv_install init_inv_invoke init_inv_fire)

lemma init_inv_run:
  "init_inv s \<Longrightarrow> init_inv (run acts s)"
  unfolding run_def
  by (induction acts arbitrary: s) (simp_all add: init_inv_perform)

lemma init_inv_new_state: "init_inv (new_state i nm)"
  by (simp add: init_inv_def new_state_def)

lemma run_handler_listeners:
  "\<not> is_init_listener hdl \<Longrightarrow> listeners (snd (run_handler hdl d s)) = listeners s"
  by (cases hdl)
     (auto simp: call_hook_eq case_prod_unfold applyRules_def applyPlugins_def
           split: hook_result.splits)

lemma run_handlers_listeners:
  "(\<And>hdl. hdl \<in> set hs \<Longrightarrow> \<not> is_init_listener hdl) \<Longrightarrow>
     listeners (snd (run_handlers hs d s)) = listeners s"
proof (induction hs arbitrary: s)
  case Nil
  then show ?case by simp
next
  case (Cons h hs)
  have "listeners (snd (run_handler h d s)) = listeners s"
    using Cons.prems by (intro run_handler_listeners) simp
  moreover have "listeners (snd (run_handlers hs d (snd (run_handler h d s))))
                   = listeners (snd (run_handler h d s))"
    using Cons.prems by (intro Cons.IH) simp
  ultimately show ?case
    by (auto simp: case_prod_unfold split: hook_result.splits)
qed

lemma fire_listeners:
  assumes "init_inv s" and "ev \<noteq> ''init''"
  shows "listeners (snd (fire ev d s)) = listeners s"
proof -
  have "\<not> is_init_listener hdl" if "hdl \<in> set (handlers_for ev s)" for hdl
  proof -
    from that have "(ev, hdl) \<in> set (listeners s)" by (auto simp: handlers_for_def)
    then show ?thesis using assms unfolding init_inv_def by blast
  qed
  then have "listeners (snd (run_handlers (handlers_for ev s) d (emit (Fired ev d) s)))
               = listeners (emit (Fired ev d) s)"
    by (intro run_handlers_listeners) simp
  then show ?thesis by (simp add: fire_def)
qed

lemma invoke_listeners: "listeners (snd (invoke name args s)) = listeners s"
  by (auto simp: invoke_def verb_callable_listeners split: option.splits callable.splits)

lemma perform_second_order_listeners:
  assumes "init_inv s" and "\<not> fires_init a"
  shows "second_order_listeners (snd (perform a s)) = second_order_listeners s"
proof (cases a)
  case (Install k)
  then show ?thesis by (simp add: install_second_order_listeners)
next
  case (Invoke name args)
  then show ?thesis by (simp add: second_order_listeners_def invoke_listeners)
next
  case (Fire ev d)
  then show ?thesis
    using assms by (simp add: second_order_listeners_def fire_listeners)
qed

text \<open>
  C3. Whatever a build script does, and for every installed component, with or without
  a boot hook: in the trace, every call of a contribution hook (webpackEntry,
  webpackRules, webpackPlugins, webpackConfig) comes after an \<open>init\<close> firing and, when
  the component has a boot hook, after a call of that boot hook; a second-order
  listener is subscribed only once \<open>init\<close> has fired, for a component that is activated
  or passive, and after its boot hook, if any, was called; and no action but a firing
  of \<open>init\<close> (no install, no verb invocation, no firing of another event) changes the
  second-order listeners.
\<close>

theorem contribution_hooks_follow_init_and_boot:
  "(trace (run acts (new_state i nm)) = pre @ HookCall cid h args # post \<longrightarrow>
      h \<in> contribution_hooks \<longrightarrow>
      init_fired pre \<and>
      (has_hook cid Boot (run acts (new_state i nm)) \<longrightarrow> HookCall cid Boot [] \<in> set pre)) \<and>
   ((ev, hdl) \<in> set (listeners (run acts (new_state i nm))) \<longrightarrow> second_order hdl = Some cid \<longrightarrow>
      init_fired (trace (run acts (new_state i nm))) \<and>
      is_active cid (run acts (new_state i nm)) \<and>
      (has_hook cid Boot (run acts (new_state i nm)) \<longrightarrow>
         HookCall cid Boot [] \<in> set (trace (run acts (new_state i nm))))) \<and>
   (\<not> fires_init a \<longrightarrow>
      second_order_listeners (snd (perform a (run acts (new_state i nm))))
        = second_order_listeners (run acts (new_state i nm)))"
proof -
  let ?s = "run acts (new_state i nm)"
  have inv: "registrar_inv ?s" by (intro inv_run inv_new_state)
  have ii: "init_inv ?s" by (intro init_inv_run init_inv_new_state)
  note D = registrar_invD [OF inv]
  have 1: "trace ?s = pre @ HookCall cid h args # post \<longrightarrow> h \<in> contribution_hooks \<longrightarrow>
      init_fired pre \<and> (has_hook cid Boot ?s \<longrightarrow> HookCall cid Boot [] \<in> set pre)"
    using D(8) ii unfolding boot_first_def init_inv_def init_first_def by blast
  have 2: "(ev, hdl) \<in> set (listeners ?s) \<longrightarrow> second_order hdl = Some cid \<longrightarrow>
      init_fired (trace ?s) \<and> is_active cid ?s \<and>
      (has_hook cid Boot ?s \<longrightarrow> HookCall cid Boot [] \<in> set (trace ?s))"
    using D(6) [of ev hdl cid] D(7) [of ev hdl cid] ii unfolding init_inv_def by auto
  have 3: "\<not> fires_init a \<longrightarrow> second_order_listeners (snd (perform a ?s)) = second_order_listeners ?s"
    using perform_second_order_listeners [OF ii] by blast
  show ?thesis using 1 2 3 by blast
qed

lemmas run_defs =
  run_def invoke_def fire_def handlers_for_def applyBabelConfig_def applyRules_def
  applyPlugins_def is_active_def has_hook_def
  registrar_defs example_component_def

lemma scenario_trace:
  "trace (run scenario (new_state 0 ''Mix'')) =
     [HookCall 0 Register [], Fired ''init'' Undefined, HookCall 0 Boot [],
      HookCall 0 BabelConfig [], BabelMerged 0, Fired ''loading-rules'' (Arr []),
      HookCall 0 WebpackRules []]"
  by (simp add: scenario_def run_defs)

lemma scenario_has_boot: "has_hook 0 Boot (run scenario (new_state 0 ''Mix''))"
  by (simp add: scenario_def run_defs)

lemma scenario_store:
  "store (run scenario (new_state 0 ''Mix'')) 1 = Some (new_component (example_component ''vue'' False))"
  "ledger (run scenario (new_state 0 ''Mix'')) = [(''notifications'', 0)]"
  by (simp_all add: scenario_def run_defs)

theorem inactive_component_hooks_never_run_witness:
  "store (run scenario (new_state 0 ''Mix'')) 1
     = Some (new_component (example_component ''vue'' False)) \<and>
   \<not> is_passive (cls (new_component (example_component ''vue'' False))) \<and>
   \<not> activated (new_component (example_component ''vue'' False)) \<and>
   1 \<notin> snd ` set (ledger (run scenario (new_state 0 ''Mix''))) \<and>
   HookCall 1 Boot [] \<notin> set (trace (run scenario (new_state 0 ''Mix'')))"
  using inactive_component_hooks_never_run
    [where acts = scenario and i = 0 and nm = "''Mix''" and cid = 1
       and c = "new_component (example_component ''vue'' False)" and h = Boot and args = "[]"]
    scenario_store(1)
  by (simp add: scenario_trace scenario_store(2) new_component_def example_component_def)

lemma scenario_listeners:
  "(''loading-rules'', LoadingRules 0) \<in> set (listeners (run scenario (new_state 0 ''Mix'')))"
  by (simp add: scenario_def run_defs)

theorem contribution_hooks_follow_init_and_boot_witness:
  "trace (run scenario (new_state 0 ''Mix''))
     = [HookCall 0 Register [], Fired ''init'' Undefined, HookCall 0 Boot [],
        HookCall 0 BabelConfig [], BabelMerged 0, Fired ''loading-rules'' (Arr [])]
       @ HookCall 0 WebpackRules [] # [] \<and>
   WebpackRules \<in> contribution_hooks \<and>
   init_fired [HookCall 0 Register [], Fired ''init'' Undefined, HookCall 0 Boot [],
        HookCall 0 BabelConfig [], BabelMerged 0, Fired ''loading-rules'' (Arr [])] \<and>
   has_hook 0 Boot (run scenario (new_state 0 ''Mix'')) \<and>
   HookCall 0 Boot [] \<in> set [HookCall 0 Register [], Fired ''init'' Undefined, HookCall 0 Boot [],
        HookCall 0 BabelConfig [], BabelMerged 0, Fired ''loading-rules'' (Arr [])] \<and>
   (''loading-rules'', LoadingRules 0) \<in> set (listeners (run scenario (new_state 0 ''Mix''))) \<and>
   \<not> fires_init (Fire ''configReady'' Undefined) \<and>
   second_order_listeners (snd (perform (Fire ''configReady'' Undefined) (run scenario (new_state 0 ''Mix''))))
     = second_order_listeners (run scenario (new_state 0 ''Mix''))"
  using contribution_hooks_follow_init_and_boot
    [where acts = scenario and i = 0 and nm = "''Mix''" and cid = 0 and h = WebpackRules
       and args = "[]" and post = "[]" and ev = "''loading-rules''" and hdl = "LoadingRules 0"
       and a = "Fire ''configReady'' Undefined"
       and pre = "[HookCall 0 Register [], Fired ''init'' Undefined, HookCall 0 Boot [],
        HookCall 0 BabelConfig [], BabelMerged 0, Fired ''loading-rules'' (Arr [])]"]
    scenario_listeners
  by (simp add: scenario_trace scenario_has_boot contribution_hooks_def init_fired_def)

end
